theory Spec2Isabelle
  imports Main "HOL-Library.Word"
begin

section \<open>Data model of the trace analyzer\<close>

text \<open>
  The analyzer (\<^verbatim>\<open>src/analyzer/general_analyzer.cc\<close>) works on a vector of
  \<^verbatim>\<open>TraceData\<close> and on two \<^verbatim>\<open>std::map<id_t, std::set<id_t>>\<close>.
  The header that declares \<^verbatim>\<open>TraceData\<close>, \<^verbatim>\<open>id_t\<close> and \<^verbatim>\<open>PAGE_SIZE\<close>
  is not part of the sources at hand, so the record below carries the four fields the
  functions read. Identifiers and block addresses are non-negative integers, values of
  fixed-width types that the section on the hot-write simulator takes as a parameter;
  \<^verbatim>\<open>PAGE_SIZE\<close> is a parameter of every function that divides by it.
  The field \<^verbatim>\<open>id\<close> is called \<open>id_val\<close> here, since \<open>id\<close> is the identity function
  of HOL.
\<close>

record TraceData =
  id_val :: nat
  isRead :: bool
  sLBA :: nat
  nLB :: nat

text \<open>
  A \<^verbatim>\<open>std::set<id_t>\<close> is the list of its elements in iteration order, and
  \<^verbatim>\<open>size()\<close> is the length of that list. A \<^verbatim>\<open>std::map<id_t, std::set<id_t>>\<close>
  is the list of its entries in iteration order (ascending keys).
\<close>

type_synonym id_set = "nat list"
type_synonym centric = "(nat \<times> id_set) list"

text \<open>\<^verbatim>\<open>std::map::count\<close>: 1 when the key has an entry, 0 otherwise.\<close>

definition map_count :: "centric \<Rightarrow> nat \<Rightarrow> nat" where
  "map_count m k = (case map_of m k of None \<Rightarrow> 0 | Some v \<Rightarrow> 1)"

text \<open>Insertion of a fresh entry at its place in the key order.\<close>

fun map_insert :: "nat \<Rightarrow> id_set \<Rightarrow> centric \<Rightarrow> centric" where
  "map_insert k v [] = [(k, v)]"
| "map_insert k v ((k', v') # m) =
     (if k < k' then (k, v) # (k', v') # m else (k', v') # map_insert k v m)"

text \<open>
  \<^verbatim>\<open>std::map::operator[]\<close>: the value stored under the key; a key without an entry
  gets one with an empty set first. The map after the call is returned as well.
\<close>

definition map_index :: "centric \<Rightarrow> nat \<Rightarrow> centric \<times> id_set" where
  "map_index m k =
     (case map_of m k of
        Some v \<Rightarrow> (m, v)
      | None \<Rightarrow> (map_insert k [] m, []))"

section \<open>The dependency classifier\<close>

text \<open>
  The objects behind the pointer arguments of \<^verbatim>\<open>analyzeDependTypes\<close> that the
  function can write to: the map and the three \<^verbatim>\<open>int32_t\<close> counters. The counters
  are 32-bit words, read as signed numbers with \<open>sint\<close>; \<open>+ 1\<close> wraps around.
\<close>

record dep_state =
  mCentric :: centric
  indep :: "32 word"
  depShort :: "32 word"
  depLong :: "32 word"

text \<open>The body of the loop over the trace vector, for one element \<open>trace\<close>.\<close>

definition dependBody :: "bool \<Rightarrow> TraceData \<Rightarrow> dep_state \<Rightarrow> dep_state" where
  "dependBody isRd trace s =
     (if isRead trace = isRd then
        (if map_count (mCentric s) (id_val trace) \<noteq> 0 then
           (case map_index (mCentric s) (id_val trace) of
              (m', deps) \<Rightarrow>
                if length deps > 1
                then s\<lparr>mCentric := m', depLong := depLong s + 1\<rparr>
                else s\<lparr>mCentric := m', depShort := depShort s + 1\<rparr>)
         else s\<lparr>indep := indep s + 1\<rparr>)
      else s)"

text \<open>
  \<^verbatim>\<open>for (auto trace : (*vTraceData))\<close>: every element is copied out of the vector,
  which therefore is only read.
\<close>

fun analyzeDependTypes :: "TraceData list \<Rightarrow> bool \<Rightarrow> dep_state \<Rightarrow> dep_state" where
  "analyzeDependTypes [] isRd s = s"
| "analyzeDependTypes (trace # rest) isRd s =
     analyzeDependTypes rest isRd (dependBody isRd trace s)"

text \<open>The three branches that count, as predicates on one request.\<close>

definition countsIndep :: "centric \<Rightarrow> bool \<Rightarrow> TraceData \<Rightarrow> bool" where
  "countsIndep m isRd t \<longleftrightarrow> isRead t = isRd \<and> map_of m (id_val t) = None"

definition countsShort :: "centric \<Rightarrow> bool \<Rightarrow> TraceData \<Rightarrow> bool" where
  "countsShort m isRd t \<longleftrightarrow>
     isRead t = isRd \<and> (case map_of m (id_val t) of None \<Rightarrow> False | Some deps \<Rightarrow> \<not> length deps > 1)"

definition countsLong :: "centric \<Rightarrow> bool \<Rightarrow> TraceData \<Rightarrow> bool" where
  "countsLong m isRd t \<longleftrightarrow>
     isRead t = isRd \<and> (case map_of m (id_val t) of None \<Rightarrow> False | Some deps \<Rightarrow> length deps > 1)"

section \<open>The hot-write simulator\<close>

text \<open>
  Whatever the C++ code does instead of computing a value is a value of its own:
  \<^item> \<open>OutOfRange\<close>: \<^verbatim>\<open>(*vTraceData)[i]\<close> past the end of the vector;
  \<^item> \<open>DivisionByZero\<close>: a division by a \<^verbatim>\<open>PAGE_SIZE\<close> of zero;
  \<^item> \<open>SignedOverflow\<close>: \<^verbatim>\<open>sLBA + nLB\<close> beyond the largest value of a signed type;
  \<^item> \<open>Int64Overflow\<close>: a value that does not fit the \<^verbatim>\<open>int64_t\<close> variable it is
    computed for;
  \<^item> \<open>IntOverflow\<close>: \<^verbatim>\<open>i++\<close> on an \<^verbatim>\<open>int i\<close> that holds the largest \<^verbatim>\<open>int\<close>;
  \<^item> \<open>BadArrayNewLength\<close>: \<^verbatim>\<open>new int32_t[pageNum]\<close> with a negative
    \<^verbatim>\<open>pageNum\<close>, which throws \<^verbatim>\<open>std::bad_array_new_length\<close>;
  \<^item> \<open>BadIndex\<close>: an access to \<^verbatim>\<open>readCounts\<close> outside the array.
\<close>

datatype error =
  OutOfRange | DivisionByZero | SignedOverflow | Int64Overflow | IntOverflow
  | BadArrayNewLength | BadIndex

text \<open>Sequencing: the first error ends the computation.\<close>

definition bindE :: "error + 'a \<Rightarrow> ('a \<Rightarrow> error + 'b) \<Rightarrow> error + 'b" where
  "bindE m f = (case m of Inl e \<Rightarrow> Inl e | Inr x \<Rightarrow> f x)"

text \<open>The largest \<^verbatim>\<open>int\<close> (32 bits) and the largest \<^verbatim>\<open>int64_t\<close>.\<close>

definition INT_MAX :: int where
  "INT_MAX = 2 ^ 31 - 1"

definition INT64_MAX :: int where
  "INT64_MAX = 2 ^ 63 - 1"

text \<open>
  Modelled from the spec: the type of the fields \<^verbatim>\<open>sLBA\<close> and \<^verbatim>\<open>nLB\<close>, which the
  absent header declares. The spec says that they hold non-negative integers and no
  more, so the fixed-width type in which \<^verbatim>\<open>sLBA + nLB\<close> is computed is a parameter:
  \<open>LBA_MAX\<close> is its largest value, and \<open>LBA_SIGNED\<close> tells whether it is a signed
  type, where a sum beyond \<open>LBA_MAX\<close> is undefined, or an unsigned one, where the sum
  wraps around modulo \<open>LBA_MAX + 1\<close>. The fields of a request hold values of that
  type, numbers from 0 to \<open>LBA_MAX\<close>.
\<close>

record lba_type =
  LBA_MAX :: nat
  LBA_SIGNED :: bool

definition lbaSum :: "lba_type \<Rightarrow> nat \<Rightarrow> nat \<Rightarrow> error + nat" where
  "lbaSum T a b =
     (if a + b \<le> LBA_MAX T then Inr (a + b)
      else if LBA_SIGNED T then Inl SignedOverflow
      else Inr ((a + b) mod (LBA_MAX T + 1)))"

text \<open>
  A non-negative quotient, stored in an \<^verbatim>\<open>int64_t\<close> variable. A quotient beyond
  the largest \<^verbatim>\<open>int64_t\<close>, which takes an unsigned 64-bit type and a
  \<^verbatim>\<open>PAGE_SIZE\<close> of 1, is not the value the variable holds afterwards; the model
  ends there.
\<close>

definition toInt64 :: "nat \<Rightarrow> error + int" where
  "toInt64 q = (if int q \<le> INT64_MAX then Inr (int q) else Inl Int64Overflow)"

text \<open>The result of an addition or subtraction on \<^verbatim>\<open>int64_t\<close>.\<close>

definition checked64 :: "int \<Rightarrow> error + int" where
  "checked64 v = (if - INT64_MAX - 1 \<le> v \<and> v \<le> INT64_MAX then Inr v else Inl Int64Overflow)"

text \<open>\<^verbatim>\<open>(*vTraceData)[i]\<close>, defined only below the size of the vector.\<close>

definition vector_at :: "'a list \<Rightarrow> nat \<Rightarrow> error + 'a" where
  "vector_at v i = (if i < length v then Inr (v ! i) else Inl OutOfRange)"

text \<open>
  \<^verbatim>\<open>x.sLBA / PAGE_SIZE\<close> and \<^verbatim>\<open>(x.sLBA + x.nLB) / PAGE_SIZE\<close>, each stored in an
  \<^verbatim>\<open>int64_t\<close> variable. The operands are not negative, so the division of C++ is
  the one of HOL, except for the divisor zero.
\<close>

definition pageStartOf :: "nat \<Rightarrow> TraceData \<Rightarrow> error + int" where
  "pageStartOf PAGE_SIZE x =
     (if PAGE_SIZE = 0 then Inl DivisionByZero else toInt64 (sLBA x div PAGE_SIZE))"

definition pageEndOf :: "lba_type \<Rightarrow> nat \<Rightarrow> TraceData \<Rightarrow> error + int" where
  "pageEndOf T PAGE_SIZE x =
     bindE (lbaSum T (sLBA x) (nLB x)) (\<lambda>s.
       if PAGE_SIZE = 0 then Inl DivisionByZero else toInt64 (s div PAGE_SIZE))"

text \<open>
  The two page numbers of the request with the id \<open>i\<close>, as the code computes them for
  a write (\<^verbatim>\<open>pageStart\<close>, \<^verbatim>\<open>pageEnd\<close>) and for a read (\<^verbatim>\<open>readStartReal\<close>,
  \<^verbatim>\<open>readEndReal\<close>).
\<close>

definition requestSpan :: "lba_type \<Rightarrow> nat \<Rightarrow> TraceData list \<Rightarrow> nat \<Rightarrow> error + (int \<times> int)" where
  "requestSpan T PAGE_SIZE vTraceData i =
     bindE (vector_at vTraceData i) (\<lambda>x.
     bindE (pageStartOf PAGE_SIZE x) (\<lambda>pageStart.
     bindE (pageEndOf T PAGE_SIZE x) (\<lambda>pageEnd.
       Inr (pageStart, pageEnd))))"

text \<open>\<^verbatim>\<open>int64_t pageNum = pageEnd - pageStart + 1;\<close>\<close>

definition pageNumOf :: "int \<Rightarrow> int \<Rightarrow> error + int" where
  "pageNumOf pageStart pageEnd = bindE (checked64 (pageEnd - pageStart)) (\<lambda>d. checked64 (d + 1))"

text \<open>
  \<^verbatim>\<open>for (int i = 0; i < pageNum; i++) readCounts[i] = 0;\<close> from the value \<open>i\<close> of
  the loop variable on.
\<close>

function zeroLoop :: "int \<Rightarrow> int \<Rightarrow> 32 word list \<Rightarrow> error + 32 word list" where
  "zeroLoop i pageNum readCounts =
     (if i < pageNum then
        (if 0 \<le> i \<and> i < int (length readCounts) then
           (if i = INT_MAX then Inl IntOverflow
            else zeroLoop (i + 1) pageNum (readCounts[nat i := 0]))
         else Inl BadIndex)
      else Inr readCounts)"
  by pat_completeness auto
termination
  by (relation "measure (\<lambda>(i, pageNum, readCounts). nat (pageNum - i))") auto

declare zeroLoop.simps [simp del]

text \<open>
  \<^verbatim>\<open>for (int i = 0; i < readNum; i++) readCounts[readOffset + i]++;\<close> from the
  value \<open>i\<close> of the loop variable on. The array holds \<^verbatim>\<open>int32_t\<close> counters, 32-bit
  words whose \<open>+ 1\<close> wraps around. An index that left the range of \<^verbatim>\<open>int64_t\<close> would
  lie outside the array as well, so \<open>BadIndex\<close> stands for both.
\<close>

function incrLoop :: "int \<Rightarrow> int \<Rightarrow> int \<Rightarrow> 32 word list \<Rightarrow> error + 32 word list" where
  "incrLoop i readNum readOffset readCounts =
     (if i < readNum then
        (if 0 \<le> readOffset + i \<and> readOffset + i < int (length readCounts) then
           (if i = INT_MAX then Inl IntOverflow
            else incrLoop (i + 1) readNum readOffset
                   (readCounts[nat (readOffset + i) := readCounts ! nat (readOffset + i) + 1]))
         else Inl BadIndex)
      else Inr readCounts)"
  by pat_completeness auto
termination
  by (relation "measure (\<lambda>(i, readNum, readOffset, readCounts). nat (readNum - i))") auto

declare incrLoop.simps [simp del]

text \<open>
  \<^verbatim>\<open>for (int i = 0; i < pageNum; i++) readCountsTotal.push_back(readCounts[i]);\<close>
  from the value \<open>i\<close> of the loop variable on.
\<close>

function pushLoop :: "int \<Rightarrow> int \<Rightarrow> 32 word list \<Rightarrow> 32 word list \<Rightarrow> error + 32 word list" where
  "pushLoop i pageNum readCounts readCountsTotal =
     (if i < pageNum then
        (if 0 \<le> i \<and> i < int (length readCounts) then
           (if i = INT_MAX then Inl IntOverflow
            else pushLoop (i + 1) pageNum readCounts (readCountsTotal @ [readCounts ! nat i]))
         else Inl BadIndex)
      else Inr readCountsTotal)"
  by pat_completeness auto
termination
  by (relation "measure (\<lambda>(i, pageNum, readCounts, readCountsTotal). nat (pageNum - i))") auto

declare pushLoop.simps [simp del]

text \<open>
  The body of \<^verbatim>\<open>for (auto read : write.second)\<close> for one read id:
  \<^verbatim>\<open>readStartOverlap\<close> is \<open>max pageStart readStartReal\<close>, \<^verbatim>\<open>readEndOverlap\<close> is
  \<open>min pageEnd readEndReal\<close>, and \<^verbatim>\<open>readOffset\<close> and \<^verbatim>\<open>readNum\<close> are computed from
  them on \<^verbatim>\<open>int64_t\<close>.
\<close>

definition readStep ::
  "lba_type \<Rightarrow> nat \<Rightarrow> TraceData list \<Rightarrow> int \<Rightarrow> int \<Rightarrow> nat \<Rightarrow> 32 word list
     \<Rightarrow> error + 32 word list" where
  "readStep T PAGE_SIZE vTraceData pageStart pageEnd read readCounts =
     bindE (requestSpan T PAGE_SIZE vTraceData read) (\<lambda>(readStartReal, readEndReal).
       let readStartOverlap = max pageStart readStartReal;
           readEndOverlap = min pageEnd readEndReal
       in
     bindE (checked64 (readStartOverlap - pageStart)) (\<lambda>readOffset.
     bindE (checked64 (readEndOverlap - readStartOverlap)) (\<lambda>d.
     bindE (checked64 (d + 1)) (\<lambda>readNum.
       incrLoop 0 readNum readOffset readCounts))))"

fun readsLoop ::
  "lba_type \<Rightarrow> nat \<Rightarrow> TraceData list \<Rightarrow> int \<Rightarrow> int \<Rightarrow> id_set \<Rightarrow> 32 word list
     \<Rightarrow> error + 32 word list" where
  "readsLoop T PAGE_SIZE vTraceData pageStart pageEnd [] readCounts = Inr readCounts"
| "readsLoop T PAGE_SIZE vTraceData pageStart pageEnd (read # rest) readCounts =
     bindE (readStep T PAGE_SIZE vTraceData pageStart pageEnd read readCounts)
       (readsLoop T PAGE_SIZE vTraceData pageStart pageEnd rest)"

text \<open>
  The simulation of one entry \<open>write\<close> of the map, up to the end of the loop over its
  dependent reads: the page span of the write, the array of \<^verbatim>\<open>pageNum\<close> counters set
  to zero, and every dependent read applied to it. The contents of a new array are
  indeterminate; every element is overwritten before it is read, and the model starts
  from zeros. Memory is taken to suffice for the array and for \<^verbatim>\<open>readCountsTotal\<close>.
\<close>

definition simulateWrite ::
  "lba_type \<Rightarrow> nat \<Rightarrow> TraceData list \<Rightarrow> nat \<times> id_set \<Rightarrow> error + 32 word list" where
  "simulateWrite T PAGE_SIZE vTraceData write =
     bindE (requestSpan T PAGE_SIZE vTraceData (fst write)) (\<lambda>(pageStart, pageEnd).
     bindE (pageNumOf pageStart pageEnd) (\<lambda>pageNum.
       if pageNum < 0 then Inl BadArrayNewLength
       else
     bindE (zeroLoop 0 pageNum (replicate (nat pageNum) 0)) (\<lambda>readCounts.
       readsLoop T PAGE_SIZE vTraceData pageStart pageEnd (snd write) readCounts)))"

text \<open>
  The body of \<^verbatim>\<open>for (auto write : *mWriteCentric)\<close>: after the simulation the
  counters \<^verbatim>\<open>readCounts[0]\<close> to \<^verbatim>\<open>readCounts[pageNum - 1]\<close> are pushed onto
  \<^verbatim>\<open>readCountsTotal\<close>, with the \<^verbatim>\<open>pageNum\<close> of the simulation.
\<close>

definition writeStep ::
  "lba_type \<Rightarrow> nat \<Rightarrow> TraceData list \<Rightarrow> nat \<times> id_set \<Rightarrow> 32 word list \<Rightarrow> error + 32 word list" where
  "writeStep T PAGE_SIZE vTraceData write readCountsTotal =
     bindE (simulateWrite T PAGE_SIZE vTraceData write) (\<lambda>readCounts.
     bindE (requestSpan T PAGE_SIZE vTraceData (fst write)) (\<lambda>(pageStart, pageEnd).
     bindE (pageNumOf pageStart pageEnd) (\<lambda>pageNum.
       pushLoop 0 pageNum readCounts readCountsTotal)))"

fun writesLoop ::
  "lba_type \<Rightarrow> nat \<Rightarrow> TraceData list \<Rightarrow> centric \<Rightarrow> 32 word list \<Rightarrow> error + 32 word list" where
  "writesLoop T PAGE_SIZE vTraceData [] readCountsTotal = Inr readCountsTotal"
| "writesLoop T PAGE_SIZE vTraceData (write # rest) readCountsTotal =
     bindE (writeStep T PAGE_SIZE vTraceData write readCountsTotal)
       (writesLoop T PAGE_SIZE vTraceData rest)"

text \<open>
  \<^verbatim>\<open>countDuplicate[val]++\<close> on a \<^verbatim>\<open>std::map<int32_t, int64_t>\<close>, kept as the
  list of its entries in ascending order of the signed keys. An occurrence total counts
  elements of the vector \<^verbatim>\<open>readCountsTotal\<close>, so it stays far below \<open>2 ^ 63\<close> and is
  a natural number here.
\<close>

fun countIncr :: "32 word \<Rightarrow> (32 word \<times> nat) list \<Rightarrow> (32 word \<times> nat) list" where
  "countIncr val [] = [(val, 1)]"
| "countIncr val ((k, c) # h) =
     (if val = k then (k, c + 1) # h
      else if sint val < sint k then (val, 1) # (k, c) # h
      else (k, c) # countIncr val h)"

definition countDuplicate :: "32 word list \<Rightarrow> (32 word \<times> nat) list" where
  "countDuplicate readCountsTotal = foldl (\<lambda>h val. countIncr val h) [] readCountsTotal"

text \<open>
  \<^verbatim>\<open>analyzeHotWrite\<close> prints two rows: the distinct count values and their
  occurrence totals. The result is that pair of rows.
\<close>

definition analyzeHotWrite ::
  "lba_type \<Rightarrow> nat \<Rightarrow> TraceData list \<Rightarrow> centric \<Rightarrow> error + (32 word list \<times> nat list)" where
  "analyzeHotWrite T PAGE_SIZE vTraceData mWriteCentric =
     bindE (writesLoop T PAGE_SIZE vTraceData mWriteCentric []) (\<lambda>readCountsTotal.
       let hot = countDuplicate readCountsTotal
       in Inr (map fst hot, map snd hot))"

section \<open>The driver\<close>

text \<open>
  The three objects \<^verbatim>\<open>analyze\<close> receives by pointer, and the three results it prints.
  The counters of both breakdowns start at zero in every call.
\<close>

record analysis_state =
  vTraceData :: "TraceData list"
  mReadCentric :: centric
  mWriteCentric :: centric

record analysis_output =
  readBD :: "32 word \<times> 32 word \<times> 32 word"
  writeBD :: "32 word \<times> 32 word \<times> 32 word"
  hotWrite :: "error + (32 word list \<times> nat list)"

definition analyze ::
  "lba_type \<Rightarrow> nat \<Rightarrow> int \<Rightarrow> analysis_state \<Rightarrow> analysis_output \<times> analysis_state" where
  "analyze T PAGE_SIZE pageNum st =
     (let r = analyzeDependTypes (vTraceData st) True
                \<lparr>mCentric = mReadCentric st, indep = 0, depShort = 0, depLong = 0\<rparr>;
          st1 = st\<lparr>mReadCentric := mCentric r\<rparr>;
          w = analyzeDependTypes (vTraceData st1) False
                \<lparr>mCentric = mWriteCentric st1, indep = 0, depShort = 0, depLong = 0\<rparr>;
          st2 = st1\<lparr>mWriteCentric := mCentric w\<rparr>;
          h = analyzeHotWrite T PAGE_SIZE (vTraceData st2) (mWriteCentric st2)
      in (\<lparr>readBD = (indep r, depShort r, depLong r),
           writeBD = (indep w, depShort w, depLong w),
           hotWrite = h\<rparr>, st2))"

section \<open>Notions used in the statements and proofs\<close>

text \<open>
  \<open>bump rc lo hi\<close> is the array \<open>rc\<close> with one added to every counter whose index lies
  in \<open>[lo, hi)\<close>. \<open>coversPage pageStart pageEnd readStart readEnd j\<close> says that counter
  \<open>j\<close> of a write with the page span \<open>[pageStart, pageEnd]\<close>, which stands for page
  \<open>pageStart + j\<close>, lies in the overlap of that span with the page span
  \<open>[readStart, readEnd]\<close> of a read. \<open>inRange T PAGE_SIZE x\<close> says that the request \<open>x\<close>
  stays inside the types: \<^verbatim>\<open>sLBA + nLB\<close> does not exceed the largest value of its type,
  and its quotient by \<^verbatim>\<open>PAGE_SIZE\<close> fits \<^verbatim>\<open>int64_t\<close>.
\<close>

definition bump :: "32 word list \<Rightarrow> int \<Rightarrow> int \<Rightarrow> 32 word list" where
  "bump rc lo hi =
     map (\<lambda>j. if lo \<le> int j \<and> int j < hi then rc ! j + 1 else rc ! j) [0 ..< length rc]"

definition coversPage :: "int \<Rightarrow> int \<Rightarrow> int \<Rightarrow> int \<Rightarrow> nat \<Rightarrow> bool" where
  "coversPage pageStart pageEnd readStart readEnd j \<longleftrightarrow>
     max pageStart readStart \<le> pageStart + int j \<and> pageStart + int j \<le> min pageEnd readEnd"

definition inRange :: "lba_type \<Rightarrow> nat \<Rightarrow> TraceData \<Rightarrow> bool" where
  "inRange T PAGE_SIZE x \<longleftrightarrow>
     sLBA x + nLB x \<le> LBA_MAX T \<and> int ((sLBA x + nLB x) div PAGE_SIZE) \<le> INT64_MAX"

section \<open>Properties of the classifier\<close>

lemma map_index_present:
  "map_of m k = Some v \<Longrightarrow> map_index m k = (m, v)"
  by (simp add: map_index_def)

lemma dependBody_cases:
  "dependBody isRd t s =
     (if isRead t \<noteq> isRd then s
      else case map_of (mCentric s) (id_val t) of
             None \<Rightarrow> s\<lparr>indep := indep s + 1\<rparr>
           | Some deps \<Rightarrow>
               if length deps > 1 then s\<lparr>depLong := depLong s + 1\<rparr>
               else s\<lparr>depShort := depShort s + 1\<rparr>)"
  by (simp add: dependBody_def map_count_def map_index_def split: option.splits)

lemma dependBody_mCentric: "mCentric (dependBody isRd t s) = mCentric s"
  by (simp add: dependBody_cases split: option.splits)

lemma analyzeDependTypes_mCentric:
  "mCentric (analyzeDependTypes tr isRd s) = mCentric s"
  by (induction tr arbitrary: s) (simp_all add: dependBody_mCentric)

lemma analyzeDependTypes_append:
  "analyzeDependTypes (xs @ ys) isRd s =
     analyzeDependTypes ys isRd (analyzeDependTypes xs isRd s)"
  by (induction xs arbitrary: s) simp_all

lemma analyzeDependTypes_snoc:
  "analyzeDependTypes (pre @ [t]) isRd s = dependBody isRd t (analyzeDependTypes pre isRd s)"
  by (simp add: analyzeDependTypes_append)

lemma counters_step:
  "indep (dependBody d t s) = indep s + (if countsIndep (mCentric s) d t then 1 else 0)"
  "depShort (dependBody d t s) = depShort s + (if countsShort (mCentric s) d t then 1 else 0)"
  "depLong (dependBody d t s) = depLong s + (if countsLong (mCentric s) d t then 1 else 0)"
  by (simp_all add: dependBody_cases countsIndep_def countsShort_def countsLong_def split: option.splits)

lemma counters_loop:
  "indep (analyzeDependTypes tr d s) = indep s + of_nat (length (filter (countsIndep (mCentric s) d) tr))"
  "depShort (analyzeDependTypes tr d s) = depShort s + of_nat (length (filter (countsShort (mCentric s) d) tr))"
  "depLong (analyzeDependTypes tr d s) = depLong s + of_nat (length (filter (countsLong (mCentric s) d) tr))"
  by (induction tr arbitrary: s; simp add: counters_step dependBody_mCentric)+

lemma partition_counts:
  "length (filter (countsIndep m d) tr) + length (filter (countsShort m d) tr)
     + length (filter (countsLong m d) tr) = length (filter (\<lambda>t. isRead t = d) tr)"
  by (induction tr) (auto simp: countsIndep_def countsShort_def countsLong_def split: option.splits)

lemma sint_of_nat_small: "n < 2 ^ 31 \<Longrightarrow> sint (of_nat n :: 32 word) = int n"
  by (simp add: signed_of_nat signed_take_bit_int_eq_self)

subsection \<open>Classification of one request\<close>

text \<open>
  Claim C1. When the loop reaches a request \<open>t\<close> after the requests \<open>pre\<close>, and the flag
  \<open>isRead\<close> of \<open>t\<close> matches the direction \<open>dir\<close>, the id of \<open>t\<close> is looked up in the map
  the function was given: without an entry exactly the counter \<open>indep\<close> goes up by one,
  with a dependent set of size 1 exactly \<open>depShort\<close>, with a set of size greater than 1
  exactly \<open>depLong\<close>. A request of the other direction leaves the state as it is.
\<close>

theorem classifier_cases:
  "(isRead t = dir \<and> map_of (mCentric s0) (id_val t) = None
      \<longrightarrow> analyzeDependTypes (pre @ [t]) dir s0 =
          (analyzeDependTypes pre dir s0)\<lparr>indep := indep (analyzeDependTypes pre dir s0) + 1\<rparr>)
   \<and> (\<forall>deps. isRead t = dir \<and> map_of (mCentric s0) (id_val t) = Some deps \<and> length deps = 1
      \<longrightarrow> analyzeDependTypes (pre @ [t]) dir s0 =
          (analyzeDependTypes pre dir s0)\<lparr>depShort := depShort (analyzeDependTypes pre dir s0) + 1\<rparr>)
   \<and> (\<forall>deps. isRead t = dir \<and> map_of (mCentric s0) (id_val t) = Some deps \<and> length deps > 1
      \<longrightarrow> analyzeDependTypes (pre @ [t]) dir s0 =
          (analyzeDependTypes pre dir s0)\<lparr>depLong := depLong (analyzeDependTypes pre dir s0) + 1\<rparr>)
   \<and> (isRead t \<noteq> dir
      \<longrightarrow> analyzeDependTypes (pre @ [t]) dir s0 = analyzeDependTypes pre dir s0)"
  unfolding analyzeDependTypes_snoc
  by (simp add: dependBody_cases analyzeDependTypes_mCentric)

theorem classifier_cases_witness:
  "analyzeDependTypes ([] @ [\<lparr>id_val = 3, isRead = True, sLBA = 0, nLB = 8\<rparr>]) True
     \<lparr>mCentric = [(1, [0]), (2, [0, 4])], indep = 0, depShort = 0, depLong = 0\<rparr>
   = \<lparr>mCentric = [(1, [0]), (2, [0, 4])], indep = 1, depShort = 0, depLong = 0\<rparr>
   \<and> analyzeDependTypes ([] @ [\<lparr>id_val = 1, isRead = True, sLBA = 0, nLB = 8\<rparr>]) True
     \<lparr>mCentric = [(1, [0]), (2, [0, 4])], indep = 0, depShort = 0, depLong = 0\<rparr>
   = \<lparr>mCentric = [(1, [0]), (2, [0, 4])], indep = 0, depShort = 1, depLong = 0\<rparr>
   \<and> analyzeDependTypes ([] @ [\<lparr>id_val = 2, isRead = True, sLBA = 0, nLB = 8\<rparr>]) True
     \<lparr>mCentric = [(1, [0]), (2, [0, 4])], indep = 0, depShort = 0, depLong = 0\<rparr>
   = \<lparr>mCentric = [(1, [0]), (2, [0, 4])], indep = 0, depShort = 0, depLong = 1\<rparr>
   \<and> analyzeDependTypes ([] @ [\<lparr>id_val = 0, isRead = False, sLBA = 0, nLB = 8\<rparr>]) True
     \<lparr>mCentric = [(1, [0]), (2, [0, 4])], indep = 0, depShort = 0, depLong = 0\<rparr>
   = \<lparr>mCentric = [(1, [0]), (2, [0, 4])], indep = 0, depShort = 0, depLong = 0\<rparr>"
  using
    classifier_cases [of "\<lparr>id_val = 3, isRead = True, sLBA = 0, nLB = 8\<rparr>" True
      "\<lparr>mCentric = [(1, [0]), (2, [0, 4])], indep = 0, depShort = 0, depLong = 0\<rparr>" "[]"]
    classifier_cases [of "\<lparr>id_val = 1, isRead = True, sLBA = 0, nLB = 8\<rparr>" True
      "\<lparr>mCentric = [(1, [0]), (2, [0, 4])], indep = 0, depShort = 0, depLong = 0\<rparr>" "[]"]
    classifier_cases [of "\<lparr>id_val = 2, isRead = True, sLBA = 0, nLB = 8\<rparr>" True
      "\<lparr>mCentric = [(1, [0]), (2, [0, 4])], indep = 0, depShort = 0, depLong = 0\<rparr>" "[]"]
    classifier_cases [of "\<lparr>id_val = 0, isRead = False, sLBA = 0, nLB = 8\<rparr>" True
      "\<lparr>mCentric = [(1, [0]), (2, [0, 4])], indep = 0, depShort = 0, depLong = 0\<rparr>" "[]"]
  by simp

subsection \<open>A key with an empty dependent set\<close>

text \<open>
  The statement of claim C2, that a request whose id is a key with an empty dependent
  set is counted like a request without an entry, fails: with the entry \<open>(0, [])\<close> the
  read 0 ends in \<open>depShort\<close>, without the entry it ends in \<open>indep\<close>.
\<close>

theorem empty_set_counterexample:
  "depShort (analyzeDependTypes [\<lparr>id_val = 0, isRead = True, sLBA = 0, nLB = 8\<rparr>] True
       \<lparr>mCentric = [(0, [])], indep = 0, depShort = 0, depLong = 0\<rparr>) = 1
   \<and> indep (analyzeDependTypes [\<lparr>id_val = 0, isRead = True, sLBA = 0, nLB = 8\<rparr>] True
       \<lparr>mCentric = [(0, [])], indep = 0, depShort = 0, depLong = 0\<rparr>) = 0
   \<and> indep (analyzeDependTypes [\<lparr>id_val = 0, isRead = True, sLBA = 0, nLB = 8\<rparr>] True
       \<lparr>mCentric = [], indep = 0, depShort = 0, depLong = 0\<rparr>) = 1"
  by (simp add: dependBody_def map_count_def map_index_def)

text \<open>
  Claim C2 as amended. A request of the selected direction whose id is a key of the map
  with an empty dependent set takes the \<^verbatim>\<open>else\<close> branch of \<^verbatim>\<open>size() > 1\<close>: exactly
  the counter \<open>depShort\<close> goes up by one, so the request is counted singly-dependent and
  neither independent nor multiply-dependent.
\<close>

theorem empty_set_counts_short:
  "isRead t = dir \<and> map_of (mCentric s0) (id_val t) = Some []
     \<longrightarrow> analyzeDependTypes (pre @ [t]) dir s0 =
          (analyzeDependTypes pre dir s0)\<lparr>depShort := depShort (analyzeDependTypes pre dir s0) + 1\<rparr>"
  unfolding analyzeDependTypes_snoc
  by (simp add: dependBody_cases analyzeDependTypes_mCentric)

theorem empty_set_counts_short_witness:
  "analyzeDependTypes ([] @ [\<lparr>id_val = 0, isRead = True, sLBA = 0, nLB = 8\<rparr>]) True
       \<lparr>mCentric = [(0, [])], indep = 0, depShort = 0, depLong = 0\<rparr>
   = \<lparr>mCentric = [(0, [])], indep = 0, depShort = 1, depLong = 0\<rparr>"
  using empty_set_counts_short [of "\<lparr>id_val = 0, isRead = True, sLBA = 0, nLB = 8\<rparr>" True
      "\<lparr>mCentric = [(0, [])], indep = 0, depShort = 0, depLong = 0\<rparr>" "[]"]
  by simp

subsection \<open>The counts add up\<close>

text \<open>
  Claim C4. For either direction \<open>dir\<close>, started with the three counters at zero, the
  three counts add up to the number \<open>n\<close> of requests of that direction in the trace:
  as 32-bit words always, and as the signed numbers the counters hold whenever \<open>n\<close> is in
  the range of \<^verbatim>\<open>int32_t\<close>. Each count is the number of requests that take its
  branch, and every request of the direction takes exactly one of the three branches.
\<close>

theorem classifier_sum:
  assumes "s' = analyzeDependTypes tr dir \<lparr>mCentric = m, indep = 0, depShort = 0, depLong = 0\<rparr>"
    and "n = length (filter (\<lambda>t. isRead t = dir) tr)"
  shows "indep s' + depShort s' + depLong s' = of_nat n
       \<and> (n < 2 ^ 31 \<longrightarrow>
            sint (indep s') + sint (depShort s') + sint (depLong s') = int n
            \<and> 0 \<le> sint (indep s') \<and> 0 \<le> sint (depShort s') \<and> 0 \<le> sint (depLong s'))
       \<and> indep s' = of_nat (length (filter (countsIndep m dir) tr))
       \<and> depShort s' = of_nat (length (filter (countsShort m dir) tr))
       \<and> depLong s' = of_nat (length (filter (countsLong m dir) tr))
       \<and> (\<forall>t. isRead t = dir \<longrightarrow>
            (countsIndep m dir t \<and> \<not> countsShort m dir t \<and> \<not> countsLong m dir t)
          \<or> (\<not> countsIndep m dir t \<and> countsShort m dir t \<and> \<not> countsLong m dir t)
          \<or> (\<not> countsIndep m dir t \<and> \<not> countsShort m dir t \<and> countsLong m dir t))"
proof -
  let ?i = "length (filter (countsIndep m dir) tr)"
  let ?s = "length (filter (countsShort m dir) tr)"
  let ?l = "length (filter (countsLong m dir) tr)"
  have cnt: "indep s' = of_nat ?i" "depShort s' = of_nat ?s" "depLong s' = of_nat ?l"
    by (simp_all add: assms(1) counters_loop)
  have part: "?i + ?s + ?l = n"
    by (simp add: assms(2) partition_counts)
  have sum: "indep s' + depShort s' + depLong s' = of_nat n"
    by (simp only: cnt part [symmetric] of_nat_add)
  have small: "sint (indep s') + sint (depShort s') + sint (depLong s') = int n
            \<and> 0 \<le> sint (indep s') \<and> 0 \<le> sint (depShort s') \<and> 0 \<le> sint (depLong s')"
    if "n < 2 ^ 31"
  proof -
    from that part have "?i < 2 ^ 31" "?s < 2 ^ 31" "?l < 2 ^ 31" by linarith+
    then have "sint (indep s') = int ?i" "sint (depShort s') = int ?s" "sint (depLong s') = int ?l"
      by (simp_all only: cnt sint_of_nat_small)
    with part show ?thesis by simp
  qed
  have excl: "(countsIndep m dir t \<and> \<not> countsShort m dir t \<and> \<not> countsLong m dir t)
          \<or> (\<not> countsIndep m dir t \<and> countsShort m dir t \<and> \<not> countsLong m dir t)
          \<or> (\<not> countsIndep m dir t \<and> \<not> countsShort m dir t \<and> countsLong m dir t)"
    if "isRead t = dir" for t
    using that by (auto simp: countsIndep_def countsShort_def countsLong_def split: option.splits)
  from cnt sum small excl show ?thesis by blast
qed

theorem classifier_sum_witness:
  "sint (indep (analyzeDependTypes
      [\<lparr>id_val = 0, isRead = False, sLBA = 0, nLB = 8\<rparr>, \<lparr>id_val = 1, isRead = True, sLBA = 0, nLB = 8\<rparr>,
       \<lparr>id_val = 2, isRead = True, sLBA = 64, nLB = 8\<rparr>]
      True \<lparr>mCentric = [(1, [0])], indep = 0, depShort = 0, depLong = 0\<rparr>))
   + sint (depShort (analyzeDependTypes
      [\<lparr>id_val = 0, isRead = False, sLBA = 0, nLB = 8\<rparr>, \<lparr>id_val = 1, isRead = True, sLBA = 0, nLB = 8\<rparr>,
       \<lparr>id_val = 2, isRead = True, sLBA = 64, nLB = 8\<rparr>]
      True \<lparr>mCentric = [(1, [0])], indep = 0, depShort = 0, depLong = 0\<rparr>))
   + sint (depLong (analyzeDependTypes
      [\<lparr>id_val = 0, isRead = False, sLBA = 0, nLB = 8\<rparr>, \<lparr>id_val = 1, isRead = True, sLBA = 0, nLB = 8\<rparr>,
       \<lparr>id_val = 2, isRead = True, sLBA = 64, nLB = 8\<rparr>]
      True \<lparr>mCentric = [(1, [0])], indep = 0, depShort = 0, depLong = 0\<rparr>)) = 2"
  using classifier_sum [OF refl refl, of
      "[\<lparr>id_val = 0, isRead = False, sLBA = 0, nLB = 8\<rparr>, \<lparr>id_val = 1, isRead = True, sLBA = 0, nLB = 8\<rparr>,
       \<lparr>id_val = 2, isRead = True, sLBA = 64, nLB = 8\<rparr>]" True "[(1, [0])]"]
  by (simp add: dependBody_def map_count_def map_index_def)

subsection \<open>Nothing but the counters changes\<close>

text \<open>
  Claim C8. A call of the classifier leaves the map as it was: \<^verbatim>\<open>operator[]\<close>, which
  would add an entry for a missing key, is only reached for keys that \<^verbatim>\<open>count\<close> has
  found, so the map has the same entries and the same keys afterwards. The state after
  the call is the state before it with new values of the three counters and nothing
  else. The trace vector is only copied from, element by element.
\<close>

theorem classifier_frame:
  "mCentric (analyzeDependTypes tr dir s) = mCentric s
   \<and> map fst (mCentric (analyzeDependTypes tr dir s)) = map fst (mCentric s)
   \<and> (\<exists>a b c. analyzeDependTypes tr dir s = s\<lparr>indep := a, depShort := b, depLong := c\<rparr>)"
proof -
  have "\<exists>a b c. analyzeDependTypes tr dir s = s\<lparr>indep := a, depShort := b, depLong := c\<rparr>"
  proof (induction tr arbitrary: s)
    case Nil
    have "s = s\<lparr>indep := indep s, depShort := depShort s, depLong := depLong s\<rparr>" by simp
    then show ?case by (metis analyzeDependTypes.simps(1))
  next
    case (Cons t tr)
    obtain a b c where
      "analyzeDependTypes tr dir (dependBody dir t s)
         = (dependBody dir t s)\<lparr>indep := a, depShort := b, depLong := c\<rparr>"
      using Cons.IH by blast
    moreover have "(dependBody dir t s)\<lparr>indep := a, depShort := b, depLong := c\<rparr>
         = s\<lparr>indep := a, depShort := b, depLong := c\<rparr>"
      by (simp add: dependBody_cases split: option.splits)
    ultimately show ?case by auto
  qed
  then show ?thesis by (simp add: analyzeDependTypes_mCentric)
qed

subsection \<open>The counters accumulate\<close>

text \<open>
  Claim C10. The classifier never resets a counter: after the call each counter holds
  its value on entry plus the number of requests that took its branch (in 32-bit
  arithmetic), and the three together their sum on entry plus the number of requests of
  the direction. The counters are the numbers of classified requests exactly when all
  three were zero on entry, and the driver passes zero counters in both of its calls.
\<close>

theorem classifier_accumulates:
  "indep (analyzeDependTypes tr dir s)
     = indep s + of_nat (length (filter (countsIndep (mCentric s) dir) tr))
   \<and> depShort (analyzeDependTypes tr dir s)
     = depShort s + of_nat (length (filter (countsShort (mCentric s) dir) tr))
   \<and> depLong (analyzeDependTypes tr dir s)
     = depLong s + of_nat (length (filter (countsLong (mCentric s) dir) tr))
   \<and> indep (analyzeDependTypes tr dir s) + depShort (analyzeDependTypes tr dir s)
       + depLong (analyzeDependTypes tr dir s)
     = indep s + depShort s + depLong s + of_nat (length (filter (\<lambda>t. isRead t = dir) tr))
   \<and> ((indep (analyzeDependTypes tr dir s)
          = of_nat (length (filter (countsIndep (mCentric s) dir) tr))
        \<and> depShort (analyzeDependTypes tr dir s)
          = of_nat (length (filter (countsShort (mCentric s) dir) tr))
        \<and> depLong (analyzeDependTypes tr dir s)
          = of_nat (length (filter (countsLong (mCentric s) dir) tr)))
       \<longleftrightarrow> (indep s = 0 \<and> depShort s = 0 \<and> depLong s = 0))
   \<and> readBD (fst (analyze T PAGE_SIZE pageNum st))
     = (of_nat (length (filter (countsIndep (mReadCentric st) True) (vTraceData st))),
        of_nat (length (filter (countsShort (mReadCentric st) True) (vTraceData st))),
        of_nat (length (filter (countsLong (mReadCentric st) True) (vTraceData st))))
   \<and> writeBD (fst (analyze T PAGE_SIZE pageNum st))
     = (of_nat (length (filter (countsIndep (mWriteCentric st) False) (vTraceData st))),
        of_nat (length (filter (countsShort (mWriteCentric st) False) (vTraceData st))),
        of_nat (length (filter (countsLong (mWriteCentric st) False) (vTraceData st))))"
proof -
  have "of_nat (length (filter (\<lambda>t. isRead t = dir) tr))
      = (of_nat (length (filter (countsIndep (mCentric s) dir) tr))
         + of_nat (length (filter (countsShort (mCentric s) dir) tr))
         + of_nat (length (filter (countsLong (mCentric s) dir) tr)) :: 32 word)"
    using arg_cong [OF partition_counts [of "mCentric s" dir tr], of "of_nat :: nat \<Rightarrow> 32 word"]
    by (simp only: of_nat_add)
  then show ?thesis
    by (simp add: counters_loop analyze_def Let_def analyzeDependTypes_mCentric)
qed

theorem classifier_accumulates_witness:
  "indep (analyzeDependTypes [\<lparr>id_val = 0, isRead = True, sLBA = 0, nLB = 8\<rparr>] True
       \<lparr>mCentric = [], indep = 5, depShort = 0, depLong = 0\<rparr>) = 6
   \<and> indep (analyzeDependTypes [\<lparr>id_val = 0, isRead = True, sLBA = 0, nLB = 8\<rparr>] True
       \<lparr>mCentric = [], indep = 0, depShort = 0, depLong = 0\<rparr>) = 1"
  using classifier_accumulates [of "[\<lparr>id_val = 0, isRead = True, sLBA = 0, nLB = 8\<rparr>]" True
      "\<lparr>mCentric = [], indep = 5, depShort = 0, depLong = 0\<rparr>"]
    classifier_accumulates [of "[\<lparr>id_val = 0, isRead = True, sLBA = 0, nLB = 8\<rparr>]" True
      "\<lparr>mCentric = [], indep = 0, depShort = 0, depLong = 0\<rparr>"]
  by (simp add: countsIndep_def)

section \<open>Properties of the hot-write simulator\<close>

subsection \<open>Errors and ranges\<close>

lemma bindE_Inl [simp]: "bindE (Inl e) f = Inl e"
  by (simp add: bindE_def)

lemma bindE_Inr [simp]: "bindE (Inr x) f = f x"
  by (simp add: bindE_def)

lemma bindE_eq_Inr: "bindE m f = Inr y \<longleftrightarrow> (\<exists>x. m = Inr x \<and> f x = Inr y)"
  by (cases m) simp_all

lemma bindE_eq_Inl: "bindE m f = Inl e \<longleftrightarrow> m = Inl e \<or> (\<exists>x. m = Inr x \<and> f x = Inl e)"
  by (cases m) simp_all

lemma checked64_eq_Inr: "checked64 v = Inr u \<longleftrightarrow> u = v \<and> - INT64_MAX - 1 \<le> v \<and> v \<le> INT64_MAX"
  by (auto simp: checked64_def)

lemma checked64_fits: "- INT64_MAX - 1 \<le> v \<Longrightarrow> v \<le> INT64_MAX \<Longrightarrow> checked64 v = Inr v"
  by (simp add: checked64_def)

lemma toInt64_eq_Inr: "toInt64 q = Inr v \<longleftrightarrow> v = int q \<and> int q \<le> INT64_MAX"
  by (auto simp: toInt64_def)

lemma INT_MAX_le_INT64_MAX: "INT_MAX \<le> INT64_MAX"
  by (simp add: INT_MAX_def INT64_MAX_def)

lemma INT64_MAX_pos: "0 < INT64_MAX"
  by (simp add: INT64_MAX_def)

lemma vector_at_eq_Inr: "vector_at v i = Inr x \<longleftrightarrow> i < length v \<and> x = v ! i"
  by (auto simp: vector_at_def)

lemma pageStartOf_eq_Inr:
  "pageStartOf P x = Inr ps \<longleftrightarrow> 0 < P \<and> ps = int (sLBA x div P) \<and> ps \<le> INT64_MAX"
  by (auto simp: pageStartOf_def toInt64_eq_Inr)

lemma lbaSum_fits: "a + b \<le> LBA_MAX T \<Longrightarrow> lbaSum T a b = Inr (a + b)"
  by (simp add: lbaSum_def)

lemma pageEndOf_eq_Inr:
  "pageEndOf T P x = Inr pe \<longleftrightarrow>
     0 < P \<and> (\<exists>s. lbaSum T (sLBA x) (nLB x) = Inr s \<and> pe = int (s div P) \<and> pe \<le> INT64_MAX)"
  by (auto simp: pageEndOf_def bindE_eq_Inr toInt64_eq_Inr)

lemma requestSpan_eq_Inr:
  "requestSpan T P tr i = Inr (ps, pe) \<longleftrightarrow>
     i < length tr \<and> pageStartOf P (tr ! i) = Inr ps \<and> pageEndOf T P (tr ! i) = Inr pe"
  by (auto simp: requestSpan_def bindE_eq_Inr vector_at_eq_Inr)

lemma requestSpan_range:
  assumes "requestSpan T P tr i = Inr (ps, pe)"
  shows "0 \<le> ps" "ps \<le> INT64_MAX" "0 \<le> pe" "pe \<le> INT64_MAX" "0 < P" "i < length tr"
  using assms by (auto simp: requestSpan_eq_Inr pageStartOf_eq_Inr pageEndOf_eq_Inr)

lemma pageNumOf_eq_Inr:
  "0 \<le> ps \<Longrightarrow> ps \<le> INT64_MAX \<Longrightarrow> 0 \<le> pe \<Longrightarrow> pe \<le> INT64_MAX \<Longrightarrow>
   pageNumOf ps pe = Inr pn \<longleftrightarrow> pn = pe - ps + 1 \<and> pn \<le> INT64_MAX"
  by (auto simp: pageNumOf_def bindE_eq_Inr checked64_eq_Inr)

subsection \<open>The three loops over \<open>int i\<close>\<close>

lemma replicate_update_same: "(replicate k x)[j := x] = replicate k x"
  by (induction k arbitrary: j) (auto split: nat.splits)

lemma zeroLoop_zeros:
  "0 \<le> i \<Longrightarrow> n \<le> INT_MAX \<Longrightarrow> n \<le> int k \<Longrightarrow>
   zeroLoop i n (replicate k 0) = Inr (replicate k 0)"
proof (induction i n "replicate k (0 :: 32 word)" rule: zeroLoop.induct)
  case (1 i n)
  show ?case
  proof (cases "i < n")
    case False
    then show ?thesis by (subst zeroLoop.simps) simp
  next
    case True
    with "1.prems" have b: "0 \<le> i \<and> i < int (length (replicate k (0 :: 32 word)))" and ne: "i \<noteq> INT_MAX"
      by auto
    have same: "(replicate k (0 :: 32 word))[nat i := 0] = replicate k 0"
      by (rule replicate_update_same)
    have "zeroLoop (i + 1) n (replicate k 0) = Inr (replicate k 0)"
      using "1.hyps" [OF True b ne same] "1.prems" by simp
    then show ?thesis
      using True b ne same by (subst zeroLoop.simps) simp
  qed
qed

lemma zeroLoop_Inr:
  "zeroLoop i n (replicate k 0) = Inr rc \<Longrightarrow> rc = replicate k 0 \<and> (i \<le> INT_MAX \<longrightarrow> n \<le> INT_MAX)"
proof (induction i n "replicate k (0 :: 32 word)" arbitrary: rc rule: zeroLoop.induct)
  case (1 i n)
  show ?case
  proof (cases "i < n")
    case False
    with "1.prems" show ?thesis by (subst (asm) zeroLoop.simps) auto
  next
    case True
    from "1.prems" True have b: "0 \<le> i \<and> i < int (length (replicate k (0 :: 32 word)))"
      and ne: "i \<noteq> INT_MAX"
      by (subst (asm) zeroLoop.simps, auto split: if_splits)+
    have same: "(replicate k (0 :: 32 word))[nat i := 0] = replicate k 0"
      by (rule replicate_update_same)
    from "1.prems" True b ne same have "zeroLoop (i + 1) n (replicate k 0) = Inr rc"
      by (subst (asm) zeroLoop.simps) simp
    from "1.hyps" [OF True b ne same this] ne show ?thesis by auto
  qed
qed

lemma zeroLoop_no_BadIndex:
  "0 \<le> i \<Longrightarrow> n \<le> int (length rc) \<Longrightarrow> zeroLoop i n rc \<noteq> Inl BadIndex"
proof (induction i n rc rule: zeroLoop.induct)
  case (1 i n rc)
  show ?case
  proof (cases "i < n \<and> i \<noteq> INT_MAX")
    case True
    with "1.prems" have b: "0 \<le> i \<and> i < int (length rc)" by auto
    have "zeroLoop (i + 1) n (rc[nat i := 0]) \<noteq> Inl BadIndex"
      using "1.IH" True b "1.prems" by simp
    then show ?thesis using True b by (subst zeroLoop.simps) simp
  next
    case False
    with "1.prems" show ?thesis by (subst zeroLoop.simps) auto
  qed
qed

lemma length_bump: "length (bump rc lo hi) = length rc"
  by (simp add: bump_def)

lemma bump_empty: "hi \<le> lo \<Longrightarrow> bump rc lo hi = rc"
  by (auto simp: bump_def intro!: nth_equalityI)

lemma bump_shift:
  assumes "0 \<le> lo" "lo < int (length rc)" "lo < hi"
  shows "bump (rc[nat lo := rc ! nat lo + 1]) (lo + 1) hi = bump rc lo hi"
proof (rule nth_equalityI)
  show "length (bump (rc[nat lo := rc ! nat lo + 1]) (lo + 1) hi) = length (bump rc lo hi)"
    by (simp add: length_bump)
next
  fix j assume "j < length (bump (rc[nat lo := rc ! nat lo + 1]) (lo + 1) hi)"
  then have j: "j < length rc" by (simp add: length_bump)
  show "bump (rc[nat lo := rc ! nat lo + 1]) (lo + 1) hi ! j = bump rc lo hi ! j"
  proof (cases "j = nat lo")
    case True
    with j assms show ?thesis by (simp add: bump_def)
  next
    case False
    with assms have "int j \<noteq> lo" by linarith
    with j False show ?thesis by (auto simp add: bump_def)
  qed
qed

lemma incrLoop_bump:
  "0 \<le> i \<Longrightarrow> 0 \<le> off \<Longrightarrow> n \<le> INT_MAX \<Longrightarrow> n \<le> i \<or> off + n \<le> int (length rc) \<Longrightarrow>
   incrLoop i n off rc = Inr (bump rc (off + i) (off + n))"
proof (induction i n off rc rule: incrLoop.induct)
  case (1 i n off rc)
  show ?case
  proof (cases "i < n")
    case False
    then show ?thesis by (subst incrLoop.simps) (simp add: bump_empty)
  next
    case True
    with "1.prems" have c: "0 \<le> off + i \<and> off + i < int (length rc)" and ne: "i \<noteq> INT_MAX"
      by auto
    let ?rc = "rc[nat (off + i) := rc ! nat (off + i) + 1]"
    have "incrLoop (i + 1) n off ?rc = Inr (bump ?rc (off + (i + 1)) (off + n))"
      using "1.IH" [OF True c ne] "1.prems" True by simp
    moreover have "bump ?rc (off + i + 1) (off + n) = bump rc (off + i) (off + n)"
      using c True by (intro bump_shift) simp_all
    ultimately show ?thesis
      using True c ne by (subst incrLoop.simps) (simp add: add.assoc)
  qed
qed

lemma incrLoop_length:
  "incrLoop i n off rc = Inr rc' \<Longrightarrow> length rc' = length rc"
proof (induction i n off rc rule: incrLoop.induct)
  case (1 i n off rc)
  show ?case
  proof (cases "i < n \<and> 0 \<le> off + i \<and> off + i < int (length rc) \<and> i \<noteq> INT_MAX")
    case True
    then have "incrLoop (i + 1) n off (rc[nat (off + i) := rc ! nat (off + i) + 1]) = Inr rc'"
      using "1.prems" by (subst (asm) incrLoop.simps) simp
    with "1.IH" True show ?thesis by simp
  next
    case False
    then show ?thesis
      using "1.prems" by (subst (asm) incrLoop.simps) (auto split: if_splits)
  qed
qed

lemma incrLoop_no_BadIndex:
  "0 \<le> off + i \<Longrightarrow> n \<le> i \<or> off + n \<le> int (length rc) \<Longrightarrow> incrLoop i n off rc \<noteq> Inl BadIndex"
proof (induction i n off rc rule: incrLoop.induct)
  case (1 i n off rc)
  show ?case
  proof (cases "i < n \<and> i \<noteq> INT_MAX")
    case True
    with "1.prems" have c: "0 \<le> off + i \<and> off + i < int (length rc)" by auto
    have "incrLoop (i + 1) n off (rc[nat (off + i) := rc ! nat (off + i) + 1]) \<noteq> Inl BadIndex"
      using "1.IH" True c "1.prems" by simp
    then show ?thesis using True c by (subst incrLoop.simps) simp
  next
    case False
    with "1.prems" show ?thesis by (subst incrLoop.simps) auto
  qed
qed

lemma pushLoop_closed:
  "0 \<le> i \<Longrightarrow> n \<le> INT_MAX \<Longrightarrow> n = int (length rc) \<Longrightarrow>
   pushLoop i n rc acc = Inr (acc @ drop (nat i) rc)"
proof (induction i n rc acc rule: pushLoop.induct)
  case (1 i n rc acc)
  show ?case
  proof (cases "i < n")
    case False
    with "1.prems" show ?thesis by (subst pushLoop.simps) simp
  next
    case True
    with "1.prems" have b: "0 \<le> i \<and> i < int (length rc)" and ne: "i \<noteq> INT_MAX" by auto
    have "pushLoop (i + 1) n rc (acc @ [rc ! nat i]) = Inr ((acc @ [rc ! nat i]) @ drop (nat (i + 1)) rc)"
      using "1.IH" [OF True b ne] "1.prems" by simp
    moreover have "drop (nat i) rc = rc ! nat i # drop (nat (i + 1)) rc"
    proof -
      from b have "nat i < length rc" by linarith
      from Cons_nth_drop_Suc [OF this] have "drop (nat i) rc = rc ! nat i # drop (Suc (nat i)) rc"
        by simp
      moreover from b have "nat (i + 1) = Suc (nat i)" by linarith
      ultimately show ?thesis by simp
    qed
    ultimately show ?thesis
      using True b ne by (subst pushLoop.simps) simp
  qed
qed

lemma pushLoop_no_BadIndex:
  "0 \<le> i \<Longrightarrow> n \<le> int (length rc) \<Longrightarrow> pushLoop i n rc acc \<noteq> Inl BadIndex"
proof (induction i n rc acc rule: pushLoop.induct)
  case (1 i n rc acc)
  show ?case
  proof (cases "i < n \<and> i \<noteq> INT_MAX")
    case True
    with "1.prems" have b: "0 \<le> i \<and> i < int (length rc)" by auto
    have "pushLoop (i + 1) n rc (acc @ [rc ! nat i]) \<noteq> Inl BadIndex"
      using "1.IH" True b "1.prems" by simp
    then show ?thesis using True b by (subst pushLoop.simps) simp
  next
    case False
    with "1.prems" show ?thesis by (subst pushLoop.simps) auto
  qed
qed

subsection \<open>One read\<close>

lemma bump_covers:
  "bump rc (max ps rs - ps) (min pe re - ps + 1)
     = map (\<lambda>j. if coversPage ps pe rs re j then rc ! j + 1 else rc ! j) [0 ..< length rc]"
  by (auto simp: bump_def coversPage_def)

lemma readStep_closed:
  assumes rd: "requestSpan T P tr rd = Inr (rs, re)"
    and w: "0 \<le> ps" "ps \<le> INT64_MAX" "0 \<le> pe" "pe \<le> INT64_MAX"
    and pn: "pe - ps + 1 \<le> INT_MAX"
    and len: "length rc = nat (pe - ps + 1)"
  shows "readStep T P tr ps pe rd rc =
           Inr (map (\<lambda>j. if coversPage ps pe rs re j then rc ! j + 1 else rc ! j) [0 ..< length rc])"
proof -
  note r = requestSpan_range [OF rd]
  let ?off = "max ps rs - ps" and ?d = "min pe re - max ps rs"
  have off: "checked64 ?off = Inr ?off"
    using w r by (intro checked64_fits) auto
  have d: "checked64 ?d = Inr ?d"
    using w r by (intro checked64_fits) auto
  have n: "checked64 (?d + 1) = Inr (?d + 1)"
    using w r pn INT_MAX_le_INT64_MAX by (intro checked64_fits) auto
  have nmax: "?d + 1 \<le> INT_MAX" using pn by auto
  have fit: "?d + 1 \<le> 0 \<or> ?off + (?d + 1) \<le> int (length rc)"
    using len by auto
  have "incrLoop 0 (?d + 1) ?off rc = Inr (bump rc (?off + 0) (?off + (?d + 1)))"
    by (rule incrLoop_bump [OF _ _ nmax fit]) auto
  moreover have "?off + (?d + 1) = min pe re - ps + 1" by simp
  ultimately have "incrLoop 0 (?d + 1) ?off rc = Inr (bump rc ?off (min pe re - ps + 1))"
    by simp
  then show ?thesis
    by (simp add: readStep_def rd Let_def off d n bump_covers)
qed

lemma readStep_eq_Inr:
  "readStep T P tr ps pe rd rc = Inr rc' \<Longrightarrow>
     (\<exists>rs re. requestSpan T P tr rd = Inr (rs, re)) \<and> length rc' = length rc"
  by (auto simp: readStep_def bindE_eq_Inr Let_def dest: incrLoop_length)

lemma readStep_no_BadIndex:
  assumes "0 \<le> ps" "0 \<le> pe - ps + 1" "length rc = nat (pe - ps + 1)"
  shows "readStep T P tr ps pe rd rc \<noteq> Inl BadIndex"
proof
  assume "readStep T P tr ps pe rd rc = Inl BadIndex"
  then obtain rs re where "incrLoop 0 (min pe re - max ps rs + 1) (max ps rs - ps) rc = Inl BadIndex"
    by (auto simp: readStep_def bindE_eq_Inl bindE_eq_Inr Let_def checked64_def requestSpan_def
        vector_at_def pageStartOf_def pageEndOf_def toInt64_def lbaSum_def split: if_splits)
  moreover have "incrLoop 0 (min pe re - max ps rs + 1) (max ps rs - ps) rc \<noteq> Inl BadIndex"
    using assms by (intro incrLoop_no_BadIndex) auto
  ultimately show False by simp
qed

subsection \<open>The loop over the dependent set\<close>

lemma readsLoop_append:
  "readsLoop T P tr ps pe (xs @ ys) rc =
     bindE (readsLoop T P tr ps pe xs rc) (readsLoop T P tr ps pe ys)"
  by (induction xs arbitrary: rc) (auto simp: bindE_def split: sum.splits)

lemma readsLoop_length:
  "readsLoop T P tr ps pe reads rc = Inr rc' \<Longrightarrow> length rc' = length rc"
  by (induction reads arbitrary: rc) (auto simp: bindE_eq_Inr dest: readStep_eq_Inr)

lemma readsLoop_in_range:
  "readsLoop T P tr ps pe reads rc = Inr rc' \<Longrightarrow>
     \<forall>rd \<in> set reads. \<exists>rs re. requestSpan T P tr rd = Inr (rs, re)"
  by (induction reads arbitrary: rc) (auto simp: bindE_eq_Inr dest: readStep_eq_Inr)

lemma readsLoop_total:
  assumes "\<forall>rd \<in> set reads. \<exists>rs re. requestSpan T P tr rd = Inr (rs, re)"
    and "0 \<le> ps" "ps \<le> INT64_MAX" "0 \<le> pe" "pe \<le> INT64_MAX"
    and "pe - ps + 1 \<le> INT_MAX"
    and "length rc = nat (pe - ps + 1)"
  shows "\<exists>rc'. readsLoop T P tr ps pe reads rc = Inr rc'"
  using assms(1,7)
proof (induction reads arbitrary: rc)
  case Nil
  then show ?case by simp
next
  case (Cons rd reads)
  then obtain rs re where sp: "requestSpan T P tr rd = Inr (rs, re)" by auto
  let ?rc = "map (\<lambda>j. if coversPage ps pe rs re j then rc ! j + 1 else rc ! j) [0 ..< length rc]"
  have st: "readStep T P tr ps pe rd rc = Inr ?rc"
    by (rule readStep_closed [OF sp assms(2-6) Cons.prems(2)])
  have "\<exists>rc'. readsLoop T P tr ps pe reads ?rc = Inr rc'"
    using Cons.IH [of ?rc] Cons.prems by simp
  then show ?case by (simp add: st)
qed

lemma readsLoop_no_BadIndex:
  assumes "0 \<le> ps" "0 \<le> pe - ps + 1" "length rc = nat (pe - ps + 1)"
  shows "readsLoop T P tr ps pe reads rc \<noteq> Inl BadIndex"
  using assms(3)
proof (induction reads arbitrary: rc)
  case Nil
  then show ?case by simp
next
  case (Cons rd reads)
  show ?case
  proof (cases "readStep T P tr ps pe rd rc")
    case (Inl e)
    with readStep_no_BadIndex [OF assms(1,2) Cons.prems, of T P tr rd] show ?thesis by auto
  next
    case (Inr rc')
    then have "length rc' = nat (pe - ps + 1)"
      using readStep_eq_Inr [of T P tr ps pe rd rc rc'] Cons.prems by simp
    from Cons.IH [OF this] Inr show ?thesis by simp
  qed
qed

subsection \<open>One write\<close>

lemma simulateWrite_eq_Inr:
  "simulateWrite T P tr (wid, reads) = Inr rc \<longleftrightarrow>
     (\<exists>ps pe. requestSpan T P tr wid = Inr (ps, pe)
        \<and> 0 \<le> pe - ps + 1 \<and> pe - ps + 1 \<le> INT_MAX
        \<and> readsLoop T P tr ps pe reads (replicate (nat (pe - ps + 1)) 0) = Inr rc)"
proof
  assume "simulateWrite T P tr (wid, reads) = Inr rc"
  then obtain ps pe pn rc0 where sp: "requestSpan T P tr wid = Inr (ps, pe)"
    and pn: "pageNumOf ps pe = Inr pn" and nn: "\<not> pn < 0"
    and z: "zeroLoop 0 pn (replicate (nat pn) 0) = Inr rc0"
    and rl: "readsLoop T P tr ps pe reads rc0 = Inr rc"
    by (auto simp: simulateWrite_def bindE_eq_Inr split: if_splits)
  note r = requestSpan_range [OF sp]
  from pn r have pn': "pn = pe - ps + 1" by (simp add: pageNumOf_eq_Inr)
  from zeroLoop_Inr [OF z] have "rc0 = replicate (nat pn) 0" "pn \<le> INT_MAX"
    by (simp_all add: INT_MAX_def)
  with sp pn' nn rl show "\<exists>ps pe. requestSpan T P tr wid = Inr (ps, pe)
        \<and> 0 \<le> pe - ps + 1 \<and> pe - ps + 1 \<le> INT_MAX
        \<and> readsLoop T P tr ps pe reads (replicate (nat (pe - ps + 1)) 0) = Inr rc"
    by auto
next
  assume "\<exists>ps pe. requestSpan T P tr wid = Inr (ps, pe)
        \<and> 0 \<le> pe - ps + 1 \<and> pe - ps + 1 \<le> INT_MAX
        \<and> readsLoop T P tr ps pe reads (replicate (nat (pe - ps + 1)) 0) = Inr rc"
  then obtain ps pe where sp: "requestSpan T P tr wid = Inr (ps, pe)"
    and b: "0 \<le> pe - ps + 1" "pe - ps + 1 \<le> INT_MAX"
    and rl: "readsLoop T P tr ps pe reads (replicate (nat (pe - ps + 1)) 0) = Inr rc"
    by blast
  note r = requestSpan_range [OF sp]
  have pn: "pageNumOf ps pe = Inr (pe - ps + 1)"
    using r b INT_MAX_le_INT64_MAX by (simp add: pageNumOf_eq_Inr)
  have z: "zeroLoop 0 (pe - ps + 1) (replicate (nat (pe - ps + 1)) 0) = Inr (replicate (nat (pe - ps + 1)) 0)"
    using b by (intro zeroLoop_zeros) auto
  show "simulateWrite T P tr (wid, reads) = Inr rc"
    using b by (simp add: simulateWrite_def sp pn z rl)
qed

lemma simulateWrite_length:
  assumes "simulateWrite T P tr (wid, reads) = Inr rc"
  shows "\<exists>ps pe. requestSpan T P tr wid = Inr (ps, pe) \<and> 0 \<le> pe - ps + 1
           \<and> pe - ps + 1 \<le> INT_MAX \<and> int (length rc) = pe - ps + 1"
proof -
  from assms obtain ps pe where sp: "requestSpan T P tr wid = Inr (ps, pe)"
    and b: "0 \<le> pe - ps + 1" "pe - ps + 1 \<le> INT_MAX"
    and rl: "readsLoop T P tr ps pe reads (replicate (nat (pe - ps + 1)) 0) = Inr rc"
    unfolding simulateWrite_eq_Inr by blast
  from readsLoop_length [OF rl] b have "int (length rc) = pe - ps + 1" by simp
  with sp b show ?thesis by blast
qed

lemma simulateWrite_no_BadIndex: "simulateWrite T P tr w \<noteq> Inl BadIndex"
proof
  assume a: "simulateWrite T P tr w = Inl BadIndex"
  show False
  proof (cases "requestSpan T P tr (fst w)")
    case (Inl e)
    with a have "requestSpan T P tr (fst w) = Inl BadIndex" by (simp add: simulateWrite_def)
    then show False
      by (auto simp: requestSpan_def bindE_eq_Inl vector_at_def pageStartOf_def pageEndOf_def
          toInt64_def lbaSum_def split: if_splits)
  next
    case (Inr sp)
    obtain ps pe where sp: "sp = (ps, pe)" by (cases sp)
    note r = requestSpan_range [OF Inr [unfolded sp]]
    show False
    proof (cases "pageNumOf ps pe")
      case (Inl e)
      with a Inr sp have "pageNumOf ps pe = Inl BadIndex" by (simp add: simulateWrite_def)
      then show False
        by (auto simp: pageNumOf_def bindE_eq_Inl checked64_def split: if_splits)
    next
      case pn: (Inr pn)
      with r have pn': "pn = pe - ps + 1" by (simp add: pageNumOf_eq_Inr)
      show False
      proof (cases "pn < 0")
        case True
        with a Inr sp pn show False by (simp add: simulateWrite_def)
      next
        case False
        show False
        proof (cases "zeroLoop 0 pn (replicate (nat pn) 0)")
          case (Inl e)
          with a Inr sp pn False have "zeroLoop 0 pn (replicate (nat pn) 0) = Inl BadIndex"
            by (simp add: simulateWrite_def)
          moreover have "zeroLoop 0 pn (replicate (nat pn) 0) \<noteq> Inl BadIndex"
            using False by (intro zeroLoop_no_BadIndex) auto
          ultimately show False by simp
        next
          case z: (Inr rc0)
          from zeroLoop_Inr [OF z] have rc0: "rc0 = replicate (nat pn) 0" by simp
          from a Inr sp pn False z have "readsLoop T P tr ps pe (snd w) rc0 = Inl BadIndex"
            by (simp add: simulateWrite_def)
          moreover have "readsLoop T P tr ps pe (snd w) rc0 \<noteq> Inl BadIndex"
            using False r pn' rc0 by (intro readsLoop_no_BadIndex) auto
          ultimately show False by simp
        qed
      qed
    qed
  qed
qed

subsection \<open>The loop over the map\<close>

lemma writeStep_eq_Inr:
  "writeStep T P tr w acc = Inr acc' \<longleftrightarrow>
     (\<exists>rc. simulateWrite T P tr w = Inr rc \<and> acc' = acc @ rc)"
proof -
  have "bindE (requestSpan T P tr (fst w)) (\<lambda>(pageStart, pageEnd).
          bindE (pageNumOf pageStart pageEnd) (\<lambda>pageNum. pushLoop 0 pageNum rc acc)) = Inr (acc @ rc)"
    if "simulateWrite T P tr w = Inr rc" for rc
  proof -
    from simulateWrite_length [of T P tr "fst w" "snd w" rc] that
    obtain ps pe where sp: "requestSpan T P tr (fst w) = Inr (ps, pe)"
      and b: "0 \<le> pe - ps + 1" "pe - ps + 1 \<le> INT_MAX" and len: "int (length rc) = pe - ps + 1"
      by auto
    note r = requestSpan_range [OF sp]
    have pn: "pageNumOf ps pe = Inr (pe - ps + 1)"
      using r b INT_MAX_le_INT64_MAX by (simp add: pageNumOf_eq_Inr)
    have "pushLoop 0 (pe - ps + 1) rc acc = Inr (acc @ drop (nat 0) rc)"
      using b len by (intro pushLoop_closed) auto
    then show ?thesis by (simp add: sp pn)
  qed
  then show ?thesis
    by (auto simp: writeStep_def bindE_eq_Inr)
qed

lemma writeStep_no_BadIndex: "writeStep T P tr w acc \<noteq> Inl BadIndex"
proof (cases "simulateWrite T P tr w")
  case (Inl e)
  with simulateWrite_no_BadIndex [of T P tr w] show ?thesis by (auto simp: writeStep_def)
next
  case (Inr rc)
  then have "writeStep T P tr w acc = Inr (acc @ rc)" by (auto simp: writeStep_eq_Inr)
  then show ?thesis by simp
qed

lemma writesLoop_eq_Inr:
  "writesLoop T P tr m acc = Inr acc' \<longleftrightarrow>
     (\<exists>rcs. list_all2 (\<lambda>w rc. simulateWrite T P tr w = Inr rc) m rcs \<and> acc' = acc @ concat rcs)"
proof (induction m arbitrary: acc)
  case Nil
  then show ?case by auto
next
  case (Cons w m)
  show ?case
    apply (auto simp: bindE_eq_Inr writeStep_eq_Inr Cons.IH list_all2_Cons1)
    subgoal for rc rcs by (rule exI [of _ "rc # rcs"]) simp
    done
qed

lemma writesLoop_no_BadIndex: "writesLoop T P tr m acc \<noteq> Inl BadIndex"
proof (induction m arbitrary: acc)
  case Nil
  then show ?case by simp
next
  case (Cons w m)
  then show ?case
    using writeStep_no_BadIndex [of T P tr w acc]
    by (cases "writeStep T P tr w acc") auto
qed

lemma analyzeHotWrite_eq_Inr:
  "analyzeHotWrite T P tr m = Inr h \<longleftrightarrow>
     (\<exists>rcs. list_all2 (\<lambda>w rc. simulateWrite T P tr w = Inr rc) m rcs
        \<and> h = (map fst (countDuplicate (concat rcs)), map snd (countDuplicate (concat rcs))))"
  by (auto simp: analyzeHotWrite_def bindE_eq_Inr writesLoop_eq_Inr Let_def)

subsection \<open>The histogram\<close>

lemma countIncr_sum: "sum_list (map snd (countIncr v h)) = sum_list (map snd h) + 1"
  by (induction v h rule: countIncr.induct) auto

lemma countIncr_keys: "set (map fst (countIncr v h)) = insert v (set (map fst h))"
  by (induction v h rule: countIncr.induct) auto

lemma sint_eq_iff: "sint (a :: 32 word) = sint b \<longleftrightarrow> a = b"
  by (auto intro: signed_word_eqI)

lemma countIncr_sorted:
  "sorted_wrt (\<lambda>a b. sint a < sint b) (map fst h) \<Longrightarrow>
   sorted_wrt (\<lambda>a b. sint a < sint b) (map fst (countIncr v h))"
proof (induction v h rule: countIncr.induct)
  case (1 val)
  then show ?case by simp
next
  case (2 val k c h)
  show ?case
  proof (cases "val = k")
    case True
    with 2 show ?thesis by simp
  next
    case False
    then have ne: "sint val \<noteq> sint k" by (simp add: sint_eq_iff)
    show ?thesis
    proof (cases "sint val < sint k")
      case True
      with 2 False show ?thesis by (auto simp: image_iff)
    next
      case lt: False
      with ne have "sint k < sint val" by simp
      with 2 False lt show ?thesis
        by (auto simp: countIncr_keys [simplified])
    qed
  qed
qed

lemma foldl_countIncr_sum:
  "sum_list (map snd (foldl (\<lambda>h val. countIncr val h) h xs)) = sum_list (map snd h) + length xs"
  by (induction xs arbitrary: h) (simp_all add: countIncr_sum)

lemma foldl_countIncr_sorted:
  "sorted_wrt (\<lambda>a b. sint a < sint b) (map fst h) \<Longrightarrow>
   sorted_wrt (\<lambda>a b. sint a < sint b) (map fst (foldl (\<lambda>h val. countIncr val h) h xs))"
  by (induction xs arbitrary: h) (simp_all add: countIncr_sorted)

lemma foldl_countIncr_keys:
  "set (map fst (foldl (\<lambda>h val. countIncr val h) h xs)) = set (map fst h) \<union> set xs"
  by (induction xs arbitrary: h) (simp_all add: countIncr_keys del: set_map)

lemma countDuplicate_sum: "sum_list (map snd (countDuplicate xs)) = length xs"
  by (simp add: countDuplicate_def foldl_countIncr_sum)

lemma countDuplicate_sorted: "sorted_wrt (\<lambda>a b. sint a < sint b) (map fst (countDuplicate xs))"
  by (simp add: countDuplicate_def foldl_countIncr_sorted)

lemma countDuplicate_keys: "set (map fst (countDuplicate xs)) = set xs"
  by (simp add: countDuplicate_def foldl_countIncr_keys del: set_map)

lemma strictly_sorted_distinct:
  "sorted_wrt (\<lambda>a b. sint a < sint b) (xs :: 32 word list) \<Longrightarrow> distinct xs"
  by (induction xs) auto


subsection \<open>Requests within the range of the types\<close>

lemma requestSpan_inRange:
  assumes "0 < P" "i < length tr" "inRange T P (tr ! i)"
  shows "requestSpan T P tr i =
           Inr (int (sLBA (tr ! i) div P), int ((sLBA (tr ! i) + nLB (tr ! i)) div P))"
proof -
  have "sLBA (tr ! i) div P \<le> (sLBA (tr ! i) + nLB (tr ! i)) div P"
    by (simp add: div_le_mono)
  with assms show ?thesis
    by (auto simp: requestSpan_eq_Inr pageStartOf_eq_Inr pageEndOf_eq_Inr inRange_def lbaSum_fits)
qed

lemma list_all2_simulate_length:
  "list_all2 (\<lambda>w rc. simulateWrite T P tr w = Inr rc) m rcs \<Longrightarrow>
   int (length (concat rcs)) =
     (\<Sum>w\<leftarrow>m. snd (projr (requestSpan T P tr (fst w))) - fst (projr (requestSpan T P tr (fst w))) + 1)
   \<and> (\<forall>w \<in> set m. \<exists>ps pe. requestSpan T P tr (fst w) = Inr (ps, pe))"
proof (induction rule: list_all2_induct)
  case Nil
  then show ?case by simp
next
  case (Cons w m rc rcs)
  from simulateWrite_length [of T P tr "fst w" "snd w" rc] Cons.hyps(1)
  obtain ps pe where "requestSpan T P tr (fst w) = Inr (ps, pe)" "int (length rc) = pe - ps + 1"
    by auto
  with Cons.IH show ?case by auto
qed

lemma simulate_total:
  assumes "0 < P" "wid < length tr" "inRange T P (tr ! wid)"
    and "int ((sLBA (tr ! wid) + nLB (tr ! wid)) div P) - int (sLBA (tr ! wid) div P) + 1 \<le> INT_MAX"
    and "\<forall>rd \<in> set reads. rd < length tr \<and> inRange T P (tr ! rd)"
  shows "\<exists>rc. simulateWrite T P tr (wid, reads) = Inr rc"
proof -
  let ?ps = "int (sLBA (tr ! wid) div P)" and ?pe = "int ((sLBA (tr ! wid) + nLB (tr ! wid)) div P)"
  have sp: "requestSpan T P tr wid = Inr (?ps, ?pe)"
    by (rule requestSpan_inRange [OF assms(1-3)])
  note r = requestSpan_range [OF sp]
  have le: "?ps \<le> ?pe" by (simp add: div_le_mono)
  have rds: "\<forall>rd \<in> set reads. \<exists>rs re. requestSpan T P tr rd = Inr (rs, re)"
    using assms(1,5) by (auto simp: requestSpan_inRange)
  have "\<exists>rc. readsLoop T P tr ?ps ?pe reads (replicate (nat (?pe - ?ps + 1)) 0) = Inr rc"
    by (rule readsLoop_total [OF rds r(1-4) assms(4)]) simp
  with sp le assms(4) show ?thesis
    unfolding simulateWrite_eq_Inr by auto
qed

lemma simulateWrite_unfold:
  assumes "requestSpan T P tr wid = Inr (ps, pe)" "0 \<le> pe - ps + 1" "pe - ps + 1 \<le> INT_MAX"
  shows "simulateWrite T P tr (wid, reads) =
           readsLoop T P tr ps pe reads (replicate (nat (pe - ps + 1)) 0)"
proof -
  note r = requestSpan_range [OF assms(1)]
  have pn: "pageNumOf ps pe = Inr (pe - ps + 1)"
    using r assms INT_MAX_le_INT64_MAX by (simp add: pageNumOf_eq_Inr)
  have z: "zeroLoop 0 (pe - ps + 1) (replicate (nat (pe - ps + 1)) 0) = Inr (replicate (nat (pe - ps + 1)) 0)"
    using assms by (intro zeroLoop_zeros) auto
  show ?thesis
    using assms(2) by (simp add: simulateWrite_def assms(1) pn z)
qed

lemma simulateWrite_reads_cong:
  assumes "\<And>ps pe rc. requestSpan T P tr wid = Inr (ps, pe) \<Longrightarrow>
             readsLoop T P tr ps pe reads rc = readsLoop T P tr ps pe reads' rc"
  shows "simulateWrite T P tr (wid, reads) = simulateWrite T P tr (wid, reads')"
proof (cases "requestSpan T P tr wid")
  case (Inl e)
  then show ?thesis by (simp add: simulateWrite_def)
next
  case (Inr sp)
  obtain ps pe where "sp = (ps, pe)" by (cases sp)
  with Inr assms [of ps pe] show ?thesis
    by (simp add: simulateWrite_def bindE_def split: sum.splits)
qed

lemma writesLoop_append:
  "writesLoop T P tr (xs @ ys) acc = bindE (writesLoop T P tr xs acc) (writesLoop T P tr ys)"
  by (induction xs arbitrary: acc) (auto simp: bindE_def split: sum.splits)

lemma analyzeHotWrite_cong:
  assumes "simulateWrite T P tr (wid, reads) = simulateWrite T P tr (wid, reads')"
  shows "analyzeHotWrite T P tr (m1 @ (wid, reads) # m2) = analyzeHotWrite T P tr (m1 @ (wid, reads') # m2)"
proof -
  have "writeStep T P tr (wid, reads) acc = writeStep T P tr (wid, reads') acc" for acc
    by (simp add: writeStep_def assms)
  then have "writesLoop T P tr ((wid, reads) # m2) = writesLoop T P tr ((wid, reads') # m2)"
    by (intro ext) simp
  then show ?thesis
    by (simp only: analyzeHotWrite_def writesLoop_append)
qed

lemma incrLoop_done: "n \<le> i \<Longrightarrow> incrLoop i n off rc = Inr rc"
  by (subst incrLoop.simps) simp

lemma readStep_disjoint:
  assumes rd: "requestSpan T P tr rd = Inr (rs, re)"
    and w: "0 \<le> ps" "ps \<le> INT64_MAX" "0 \<le> pe" "pe \<le> INT64_MAX"
    and dis: "min pe re < max ps rs"
  shows "readStep T P tr ps pe rd rc = Inr rc"
proof -
  note r = requestSpan_range [OF rd]
  let ?off = "max ps rs - ps" and ?d = "min pe re - max ps rs"
  have off: "checked64 ?off = Inr ?off"
    using w r by (intro checked64_fits) auto
  have d: "checked64 ?d = Inr ?d"
    using w r by (intro checked64_fits) auto
  have n: "checked64 (?d + 1) = Inr (?d + 1)"
    using w r dis INT64_MAX_pos by (intro checked64_fits) auto
  have "?d + 1 \<le> 0" using dis by simp
  then have "incrLoop 0 (?d + 1) ?off rc = Inr rc"
    by (rule incrLoop_done)
  then show ?thesis
    by (simp add: readStep_def rd Let_def off d n)
qed

subsection \<open>Inputs outside the range of the types\<close>

lemma zeroLoop_overflow:
  "0 \<le> i \<Longrightarrow> i \<le> INT_MAX \<Longrightarrow> INT_MAX < n \<Longrightarrow> n \<le> int k \<Longrightarrow>
   zeroLoop i n (replicate k 0) = Inl IntOverflow"
proof (induction i n "replicate k (0 :: 32 word)" rule: zeroLoop.induct)
  case (1 i n)
  from "1.prems" have lt: "i < n" and b: "0 \<le> i \<and> i < int (length (replicate k (0 :: 32 word)))"
    by auto
  show ?case
  proof (cases "i = INT_MAX")
    case True
    with lt b show ?thesis by (subst zeroLoop.simps) simp
  next
    case False
    have same: "(replicate k (0 :: 32 word))[nat i := 0] = replicate k 0"
      by (rule replicate_update_same)
    have "zeroLoop (i + 1) n (replicate k 0) = Inl IntOverflow"
      using "1.hyps" [OF lt b False same] "1.prems" False by simp
    then show ?thesis
      using lt b False same by (subst zeroLoop.simps) simp
  qed
qed

lemma simulateWrite_too_many_pages:
  assumes "requestSpan T P tr wid = Inr (ps, pe)" "INT_MAX < pe - ps + 1" "pe - ps + 1 \<le> INT64_MAX"
  shows "simulateWrite T P tr (wid, reads) = Inl IntOverflow"
proof -
  note r = requestSpan_range [OF assms(1)]
  have pn: "pageNumOf ps pe = Inr (pe - ps + 1)"
    using r assms by (simp add: pageNumOf_eq_Inr)
  have "0 \<le> INT_MAX" by (simp add: INT_MAX_def)
  then have z: "zeroLoop 0 (pe - ps + 1) (replicate (nat (pe - ps + 1)) 0) = Inl IntOverflow"
    using assms(2) by (intro zeroLoop_overflow) auto
  from assms(2) \<open>0 \<le> INT_MAX\<close> have "\<not> pe - ps + 1 < 0" by simp
  then show ?thesis
    by (simp add: simulateWrite_def assms(1) pn z)
qed

lemma overflow_examples:
  "analyzeHotWrite \<lparr>LBA_MAX = 2 ^ 63 - 1, LBA_SIGNED = True\<rparr> 4096
     [\<lparr>id_val = 0, isRead = False, sLBA = 2 ^ 63 - 1, nLB = 1\<rparr>] [(0, [])] = Inl SignedOverflow"
  "analyzeHotWrite \<lparr>LBA_MAX = 2 ^ 32 - 1, LBA_SIGNED = False\<rparr> 4096
     [\<lparr>id_val = 0, isRead = False, sLBA = 2 ^ 32 - 1, nLB = 1\<rparr>] [(0, [])] = Inl BadArrayNewLength"
  "analyzeHotWrite T 0 [\<lparr>id_val = 0, isRead = False, sLBA = 0, nLB = 1\<rparr>] [(0, [])] = Inl DivisionByZero"
  "analyzeHotWrite T P [\<lparr>id_val = 0, isRead = False, sLBA = 0, nLB = 1\<rparr>] [(1, [])] = Inl OutOfRange"
  by (simp_all add: analyzeHotWrite_def writeStep_def simulateWrite_def requestSpan_def
      vector_at_def pageStartOf_def pageEndOf_def lbaSum_def toInt64_def pageNumOf_def checked64_def
      INT64_MAX_def)

subsection \<open>The worked example\<close>

lemma upt_3: "[0 ..< 3] = [0, 1, 2]"
  by (simp add: upt_rec)

lemma replicate_3: "replicate 3 x = [x, x, x]"
  by (simp add: numeral_3_eq_3)

lemma example_two_reads:
  assumes "8192 \<le> LBA_MAX T"
  shows "requestSpan T 4096
     [\<lparr>id_val = 0, isRead = False, sLBA = 0, nLB = 8192\<rparr>,
      \<lparr>id_val = 1, isRead = True, sLBA = 0, nLB = 4097\<rparr>,
      \<lparr>id_val = 2, isRead = True, sLBA = 0, nLB = 4097\<rparr>] 0 = Inr (0, 2)
   \<and> simulateWrite T 4096
     [\<lparr>id_val = 0, isRead = False, sLBA = 0, nLB = 8192\<rparr>,
      \<lparr>id_val = 1, isRead = True, sLBA = 0, nLB = 4097\<rparr>,
      \<lparr>id_val = 2, isRead = True, sLBA = 0, nLB = 4097\<rparr>] (0, [1, 2]) = Inr [2, 2, 0]
   \<and> analyzeHotWrite T 4096
     [\<lparr>id_val = 0, isRead = False, sLBA = 0, nLB = 8192\<rparr>,
      \<lparr>id_val = 1, isRead = True, sLBA = 0, nLB = 4097\<rparr>,
      \<lparr>id_val = 2, isRead = True, sLBA = 0, nLB = 4097\<rparr>] [(0, [1, 2])] = Inr ([0, 2], [1, 2])"
proof -
  let ?tr = "[\<lparr>id_val = 0, isRead = False, sLBA = 0, nLB = 8192\<rparr>,
      \<lparr>id_val = 1, isRead = True, sLBA = 0, nLB = 4097\<rparr>,
      \<lparr>id_val = 2, isRead = True, sLBA = 0, nLB = 4097\<rparr>]"
  have sp0: "requestSpan T 4096 ?tr 0 = Inr (0, 2)"
    using assms by (simp add: requestSpan_eq_Inr pageStartOf_eq_Inr pageEndOf_eq_Inr lbaSum_def INT64_MAX_def)
  have sp1: "requestSpan T 4096 ?tr 1 = Inr (0, 1)"
    using assms by (simp add: requestSpan_eq_Inr pageStartOf_eq_Inr pageEndOf_eq_Inr lbaSum_def INT64_MAX_def)
  have sp2: "requestSpan T 4096 ?tr 2 = Inr (0, 1)"
    using assms by (simp add: requestSpan_eq_Inr pageStartOf_eq_Inr pageEndOf_eq_Inr lbaSum_def INT64_MAX_def)
  have s1: "readStep T 4096 ?tr 0 2 1 [0, 0, 0] = Inr [1, 1, 0]"
    using readStep_closed [OF sp1, of 0 2 "[0, 0, 0]"]
    by (simp add: INT64_MAX_def INT_MAX_def coversPage_def upt_3)
  have s2: "readStep T 4096 ?tr 0 2 2 [1, 1, 0] = Inr [2, 2, 0]"
    using readStep_closed [OF sp2, of 0 2 "[1, 1, 0]"]
    by (simp add: INT64_MAX_def INT_MAX_def coversPage_def upt_3)
  have sim: "simulateWrite T 4096 ?tr (0, [1, 2]) = Inr [2, 2, 0]"
    using simulateWrite_unfold [OF sp0, of "[1, 2]"] s1 s2
    by (simp add: INT_MAX_def replicate_3)
  have cd: "countDuplicate [2, 2, 0] = [(0, 1), (2, 2)]"
    by (simp add: countDuplicate_def)
  have "analyzeHotWrite T 4096 ?tr [(0, [1, 2])] = Inr ([0, 2], [1, 2])"
    unfolding analyzeHotWrite_eq_Inr
    using sim cd by (intro exI [of _ "[[2, 2, 0]]"]) simp
  with sp0 sim show ?thesis by simp
qed

lemma example_one_read:
  assumes "8192 \<le> LBA_MAX T"
  shows "simulateWrite T 4096
     [\<lparr>id_val = 0, isRead = False, sLBA = 0, nLB = 8192\<rparr>,
      \<lparr>id_val = 1, isRead = True, sLBA = 0, nLB = 4097\<rparr>,
      \<lparr>id_val = 2, isRead = True, sLBA = 0, nLB = 4097\<rparr>] (0, [1]) = Inr [1, 1, 0]
   \<and> requestSpan T 4096
     [\<lparr>id_val = 0, isRead = False, sLBA = 0, nLB = 8192\<rparr>,
      \<lparr>id_val = 1, isRead = True, sLBA = 0, nLB = 4097\<rparr>,
      \<lparr>id_val = 2, isRead = True, sLBA = 0, nLB = 4097\<rparr>] 2 = Inr (0, 1)"
proof -
  let ?tr = "[\<lparr>id_val = 0, isRead = False, sLBA = 0, nLB = 8192\<rparr>,
      \<lparr>id_val = 1, isRead = True, sLBA = 0, nLB = 4097\<rparr>,
      \<lparr>id_val = 2, isRead = True, sLBA = 0, nLB = 4097\<rparr>]"
  have sp0: "requestSpan T 4096 ?tr 0 = Inr (0, 2)"
    using assms by (simp add: requestSpan_eq_Inr pageStartOf_eq_Inr pageEndOf_eq_Inr lbaSum_def INT64_MAX_def)
  have sp1: "requestSpan T 4096 ?tr 1 = Inr (0, 1)"
    using assms by (simp add: requestSpan_eq_Inr pageStartOf_eq_Inr pageEndOf_eq_Inr lbaSum_def INT64_MAX_def)
  have sp2: "requestSpan T 4096 ?tr 2 = Inr (0, 1)"
    using assms by (simp add: requestSpan_eq_Inr pageStartOf_eq_Inr pageEndOf_eq_Inr lbaSum_def INT64_MAX_def)
  have s1: "readStep T 4096 ?tr 0 2 1 [0, 0, 0] = Inr [1, 1, 0]"
    using readStep_closed [OF sp1, of 0 2 "[0, 0, 0]"]
    by (simp add: INT64_MAX_def INT_MAX_def coversPage_def upt_3)
  have "simulateWrite T 4096 ?tr (0, [1]) = Inr [1, 1, 0]"
    using simulateWrite_unfold [OF sp0, of "[1]"] s1
    by (simp add: INT_MAX_def replicate_3)
  with sp2 show ?thesis by simp
qed




subsection \<open>The histogram covers every page of every write once\<close>

text \<open>
  Claim C5. When \<^verbatim>\<open>analyzeHotWrite\<close> prints the histogram rows \<open>vals\<close> and \<open>totals\<close>
  for a write-centric map (whose keys are distinct), every write id \<open>w\<close> that is a key of
  the map has a page span \<open>[ps w, pe w]\<close>, and the occurrence totals add up to the sum
  of the page-span lengths \<open>pe w - ps w + 1\<close> over these ids; the two rows have the same
  length and the count values are distinct. The histogram is printed whenever
  \<^verbatim>\<open>PAGE_SIZE\<close> is positive, every id in the map is an index of the trace vector,
  every request named in the map stays inside the types, and no write spans more pages
  than an \<^verbatim>\<open>int\<close> can count.
\<close>

theorem hot_write_histogram_total:
  "(analyzeHotWrite T P tr m = Inr (vals, totals) \<and> distinct (map fst m)
      \<longrightarrow> (\<exists>ps pe. (\<forall>w \<in> fst ` set m. requestSpan T P tr w = Inr (ps w, pe w))
              \<and> int (sum_list totals) = (\<Sum>w \<in> fst ` set m. pe w - ps w + 1))
          \<and> length vals = length totals \<and> distinct vals)
   \<and> (0 < P
       \<and> (\<forall>(w, reads) \<in> set m.
             w < length tr \<and> inRange T P (tr ! w)
             \<and> int ((sLBA (tr ! w) + nLB (tr ! w)) div P) - int (sLBA (tr ! w) div P) + 1 \<le> INT_MAX
             \<and> (\<forall>rd \<in> set reads. rd < length tr \<and> inRange T P (tr ! rd)))
      \<longrightarrow> (\<exists>vals totals. analyzeHotWrite T P tr m = Inr (vals, totals)))"
proof (intro conjI impI)
  assume a: "analyzeHotWrite T P tr m = Inr (vals, totals) \<and> distinct (map fst m)"
  then obtain rcs where sim: "list_all2 (\<lambda>w rc. simulateWrite T P tr w = Inr rc) m rcs"
    and vals: "vals = map fst (countDuplicate (concat rcs))"
    and totals: "totals = map snd (countDuplicate (concat rcs))"
    by (auto simp: analyzeHotWrite_eq_Inr)
  let ?ps = "\<lambda>w. fst (projr (requestSpan T P tr w))"
  let ?pe = "\<lambda>w. snd (projr (requestSpan T P tr w))"
  note l = list_all2_simulate_length [OF sim]
  have sp: "\<forall>w \<in> fst ` set m. requestSpan T P tr w = Inr (?ps w, ?pe w)"
    using l by fastforce
  have "int (length (concat rcs)) = (\<Sum>w\<leftarrow>map fst m. ?pe w - ?ps w + 1)"
    using l by (simp add: comp_def)
  also have "\<dots> = (\<Sum>w \<in> set (map fst m). ?pe w - ?ps w + 1)"
    using a by (simp only: sum_list_distinct_conv_sum_set)
  finally have tot: "int (sum_list totals) = (\<Sum>w \<in> fst ` set m. ?pe w - ?ps w + 1)"
    by (simp add: totals countDuplicate_sum)
  show "\<exists>ps pe. (\<forall>w \<in> fst ` set m. requestSpan T P tr w = Inr (ps w, pe w))
              \<and> int (sum_list totals) = (\<Sum>w \<in> fst ` set m. pe w - ps w + 1)"
  proof (intro exI conjI)
    show "\<forall>w \<in> fst ` set m. requestSpan T P tr w = Inr (?ps w, ?pe w)" by (rule sp)
    show "int (sum_list totals) = (\<Sum>w \<in> fst ` set m. ?pe w - ?ps w + 1)" by (rule tot)
  qed
  show "length vals = length totals"
    by (simp add: vals totals)
  have "sorted_wrt (\<lambda>a b. sint a < sint b) vals"
    unfolding vals by (rule countDuplicate_sorted)
  then show "distinct vals"
    by (rule strictly_sorted_distinct)
next
  assume h: "0 < P
       \<and> (\<forall>(w, reads) \<in> set m.
             w < length tr \<and> inRange T P (tr ! w)
             \<and> int ((sLBA (tr ! w) + nLB (tr ! w)) div P) - int (sLBA (tr ! w) div P) + 1 \<le> INT_MAX
             \<and> (\<forall>rd \<in> set reads. rd < length tr \<and> inRange T P (tr ! rd)))"
  then have "\<forall>w \<in> set m. \<exists>rc. simulateWrite T P tr w = Inr rc"
    by (auto intro!: simulate_total)
  then have "\<exists>rcs. list_all2 (\<lambda>w rc. simulateWrite T P tr w = Inr rc) m rcs"
  proof (induction m)
    case Nil
    then show ?case by simp
  next
    case (Cons w m)
    then obtain rc rcs where "simulateWrite T P tr w = Inr rc"
      "list_all2 (\<lambda>w rc. simulateWrite T P tr w = Inr rc) m rcs" by auto
    then have "list_all2 (\<lambda>w rc. simulateWrite T P tr w = Inr rc) (w # m) (rc # rcs)" by simp
    then show ?case by blast
  qed
  then show "\<exists>vals totals. analyzeHotWrite T P tr m = Inr (vals, totals)"
    by (auto simp: analyzeHotWrite_eq_Inr)
qed

theorem hot_write_histogram_total_witness:
  "analyzeHotWrite \<lparr>LBA_MAX = 2 ^ 63 - 1, LBA_SIGNED = True\<rparr> 4096
     [\<lparr>id_val = 0, isRead = False, sLBA = 0, nLB = 8192\<rparr>,
      \<lparr>id_val = 1, isRead = True, sLBA = 0, nLB = 4097\<rparr>,
      \<lparr>id_val = 2, isRead = True, sLBA = 0, nLB = 4097\<rparr>] [(0, [1, 2])] = Inr ([0, 2], [1, 2])
   \<and> distinct (map fst [(0 :: nat, [1 :: nat, 2])])
   \<and> (0 :: nat) < 4096
   \<and> int (sum_list [1, 2]) = 2 - 0 + 1"
proof -
  let ?T = "\<lparr>LBA_MAX = 2 ^ 63 - 1, LBA_SIGNED = True\<rparr>"
  let ?tr = "[\<lparr>id_val = 0, isRead = False, sLBA = 0, nLB = 8192\<rparr>,
      \<lparr>id_val = 1, isRead = True, sLBA = 0, nLB = 4097\<rparr>,
      \<lparr>id_val = 2, isRead = True, sLBA = 0, nLB = 4097\<rparr>]"
  have e: "analyzeHotWrite ?T 4096 ?tr [(0, [1, 2])] = Inr ([0, 2], [1, 2])"
    and sp: "requestSpan ?T 4096 ?tr 0 = Inr (0, 2)"
    using example_two_reads [of ?T] by simp_all
  have d: "distinct (map fst [(0 :: nat, [1 :: nat, 2])])" by simp
  have h: "(0 :: nat) < 4096
       \<and> (\<forall>(w, reads) \<in> set [(0 :: nat, [1 :: nat, 2])].
             w < length ?tr \<and> inRange ?T 4096 (?tr ! w)
             \<and> int ((sLBA (?tr ! w) + nLB (?tr ! w)) div 4096) - int (sLBA (?tr ! w) div 4096) + 1 \<le> INT_MAX
             \<and> (\<forall>rd \<in> set reads. rd < length ?tr \<and> inRange ?T 4096 (?tr ! rd)))"
    by (simp add: inRange_def INT64_MAX_def INT_MAX_def)
  from hot_write_histogram_total [of ?T 4096 ?tr "[(0, [1, 2])]" "[0, 2]" "[1, 2]"] e d
  obtain ps pe where "\<forall>w \<in> fst ` set [(0 :: nat, [1 :: nat, 2])]. requestSpan ?T 4096 ?tr w = Inr (ps w, pe w)"
    and t: "int (sum_list [1, 2]) = (\<Sum>w \<in> fst ` set [(0 :: nat, [1 :: nat, 2])]. pe w - ps w + 1)"
    by blast
  with sp have "ps 0 = 0" "pe 0 = 2" by simp_all
  with t have "int (sum_list [1, 2]) = 2 - 0 + 1" by simp
  moreover from hot_write_histogram_total [of ?T 4096 ?tr "[(0, [1, 2])]"] h
  have "\<exists>vals totals. analyzeHotWrite ?T 4096 ?tr [(0, [1, 2])] = Inr (vals, totals)"
    by blast
  ultimately show ?thesis using e d by simp
qed

subsection \<open>One read, one count per page of the overlap\<close>

text \<open>
  Claim C6. Let \<open>wid\<close> be a write with the page span \<open>[ps, pe]\<close> and let \<open>rc\<close> be the
  counter array the simulator holds for it after the dependent reads \<open>before\<close>. For the
  next read \<open>rd\<close> of the dependent set, with the page span \<open>[rs, re]\<close>, the simulator
  adds exactly one to the counter of every page \<open>ps + j\<close> in
  \<open>[max ps rs, min pe re]\<close> and leaves every other counter of the array as it is,
  however far the span of the read reaches beyond that of the write, and goes on with
  the rest of the set from that array. The histogram that \<^verbatim>\<open>analyzeHotWrite\<close> prints
  is made of the arrays so computed for the entries of the map.
\<close>

theorem read_increments_overlap:
  assumes "simulateWrite T P tr (wid, before) = Inr rc"
    and "requestSpan T P tr wid = Inr (ps, pe)"
    and "requestSpan T P tr rd = Inr (rs, re)"
  shows "(\<exists>rc'. simulateWrite T P tr (wid, before @ [rd]) = Inr rc'
            \<and> simulateWrite T P tr (wid, before @ rd # rest) = readsLoop T P tr ps pe rest rc'
            \<and> length rc' = length rc \<and> int (length rc) = pe - ps + 1
            \<and> (\<forall>j < length rc.
                  rc' ! j = (if max ps rs \<le> ps + int j \<and> ps + int j \<le> min pe re
                             then rc ! j + 1 else rc ! j)))
       \<and> (analyzeHotWrite T P tr m = Inr h \<longrightarrow>
            (\<exists>rcs. list_all2 (\<lambda>w rc. simulateWrite T P tr w = Inr rc) m rcs
               \<and> h = (map fst (countDuplicate (concat rcs)), map snd (countDuplicate (concat rcs)))))"
proof (intro conjI impI)
  from assms(1,2) have b: "0 \<le> pe - ps + 1" "pe - ps + 1 \<le> INT_MAX"
    and rl: "readsLoop T P tr ps pe before (replicate (nat (pe - ps + 1)) 0) = Inr rc"
    unfolding simulateWrite_eq_Inr by auto
  note r = requestSpan_range [OF assms(2)]
  from readsLoop_length [OF rl] have len: "length rc = nat (pe - ps + 1)" by simp
  let ?rc' = "map (\<lambda>j. if coversPage ps pe rs re j then rc ! j + 1 else rc ! j) [0 ..< length rc]"
  have st: "readStep T P tr ps pe rd rc = Inr ?rc'"
    by (rule readStep_closed [OF assms(3) r(1-4) b(2) len])
  have one: "simulateWrite T P tr (wid, before @ [rd]) = Inr ?rc'"
    by (simp add: simulateWrite_unfold [OF assms(2) b] readsLoop_append rl st)
  have all: "simulateWrite T P tr (wid, before @ rd # rest) = readsLoop T P tr ps pe rest ?rc'"
    by (simp add: simulateWrite_unfold [OF assms(2) b] readsLoop_append rl st)
  show "\<exists>rc'. simulateWrite T P tr (wid, before @ [rd]) = Inr rc'
            \<and> simulateWrite T P tr (wid, before @ rd # rest) = readsLoop T P tr ps pe rest rc'
            \<and> length rc' = length rc \<and> int (length rc) = pe - ps + 1
            \<and> (\<forall>j < length rc.
                  rc' ! j = (if max ps rs \<le> ps + int j \<and> ps + int j \<le> min pe re
                             then rc ! j + 1 else rc ! j))"
    using one all len b by (intro exI [of _ ?rc']) (simp add: coversPage_def)
next
  assume "analyzeHotWrite T P tr m = Inr h"
  then show "\<exists>rcs. list_all2 (\<lambda>w rc. simulateWrite T P tr w = Inr rc) m rcs
               \<and> h = (map fst (countDuplicate (concat rcs)), map snd (countDuplicate (concat rcs)))"
    by (simp add: analyzeHotWrite_eq_Inr)
qed

theorem read_increments_overlap_witness:
  "simulateWrite \<lparr>LBA_MAX = 2 ^ 63 - 1, LBA_SIGNED = True\<rparr> 4096
     [\<lparr>id_val = 0, isRead = False, sLBA = 0, nLB = 8192\<rparr>,
      \<lparr>id_val = 1, isRead = True, sLBA = 0, nLB = 4097\<rparr>,
      \<lparr>id_val = 2, isRead = True, sLBA = 0, nLB = 4097\<rparr>] (0, [1] @ [2]) = Inr [2, 2, 0]"
proof -
  let ?T = "\<lparr>LBA_MAX = 2 ^ 63 - 1, LBA_SIGNED = True\<rparr>"
  let ?tr = "[\<lparr>id_val = 0, isRead = False, sLBA = 0, nLB = 8192\<rparr>,
      \<lparr>id_val = 1, isRead = True, sLBA = 0, nLB = 4097\<rparr>,
      \<lparr>id_val = 2, isRead = True, sLBA = 0, nLB = 4097\<rparr>]"
  have a: "simulateWrite ?T 4096 ?tr (0, [1]) = Inr [1, 1, 0]"
    and c: "requestSpan ?T 4096 ?tr 2 = Inr (0, 1)"
    using example_one_read [of ?T] by simp_all
  have b: "requestSpan ?T 4096 ?tr 0 = Inr (0, 2)"
    using example_two_reads [of ?T] by simp
  from read_increments_overlap [OF a b c, of "[]" "[]" "([], [])"]
  obtain rc' where r: "simulateWrite ?T 4096 ?tr (0, [1] @ [2]) = Inr rc'"
    and l: "length rc' = length [1, 1, 0 :: 32 word]"
    and j: "\<forall>j < length [1, 1, 0 :: 32 word].
              rc' ! j = (if max 0 0 \<le> 0 + int j \<and> 0 + int j \<le> min 2 1
                         then [1, 1, 0] ! j + 1 else [1, 1, 0] ! j)"
    by blast
  have "rc' = [2, 2, 0]"
  proof (rule nth_equalityI)
    show "length rc' = length [2, 2, 0 :: 32 word]" using l by simp
  next
    fix k assume "k < length rc'"
    with l have "k = 0 \<or> k = 1 \<or> k = 2" by auto
    with j show "rc' ! k = [2, 2, 0] ! k" by auto
  qed
  with r show ?thesis by simp
qed

subsection \<open>Reads outside the span of the write\<close>

text \<open>
  Claim C7. A dependent read \<open>rd\<close> whose page span \<open>[rs, re]\<close> does not meet the page
  span \<open>[ps, pe]\<close> of the write is a silent no-op: the simulation of the write, and with
  it the result of \<^verbatim>\<open>analyzeHotWrite\<close>, is what it is without that read in the
  dependent set, so no counter changes, no error arises from the read, and the loop goes
  on with the next read. Whenever the loop over the overlap runs, every index
  \<open>readOffset + i\<close> it writes to lies in \<open>[0, pageNum - 1]\<close>; neither the simulation of
  a write nor \<^verbatim>\<open>analyzeHotWrite\<close> ever ends in \<open>BadIndex\<close>.
\<close>

theorem disjoint_read_is_noop:
  "(requestSpan T P tr wid = Inr (ps, pe) \<and> requestSpan T P tr rd = Inr (rs, re)
      \<and> {rs .. re} \<inter> {ps .. pe} = {}
      \<longrightarrow> simulateWrite T P tr (wid, before @ rd # rest) = simulateWrite T P tr (wid, before @ rest)
        \<and> analyzeHotWrite T P tr (m1 @ (wid, before @ rd # rest) # m2)
            = analyzeHotWrite T P tr (m1 @ (wid, before @ rest) # m2))
   \<and> (requestSpan T P tr wid = Inr (ps, pe) \<and> requestSpan T P tr rd = Inr (rs, re)
      \<longrightarrow> (\<forall>i. 0 \<le> i \<and> i < min pe re - max ps rs + 1
             \<longrightarrow> 0 \<le> max ps rs - ps + i \<and> max ps rs - ps + i \<le> (pe - ps + 1) - 1))
   \<and> simulateWrite T P tr w \<noteq> Inl BadIndex
   \<and> analyzeHotWrite T P tr m \<noteq> Inl BadIndex"
proof (intro conjI impI allI)
  assume a: "requestSpan T P tr wid = Inr (ps, pe) \<and> requestSpan T P tr rd = Inr (rs, re)
      \<and> {rs .. re} \<inter> {ps .. pe} = {}"
  then have dis: "min pe re < max ps rs" by (auto simp: Int_atLeastAtMost)
  note r = requestSpan_range [of T P tr wid ps pe]
  have "readsLoop T P tr ps' pe' (before @ rd # rest) rc = readsLoop T P tr ps' pe' (before @ rest) rc"
    if "requestSpan T P tr wid = Inr (ps', pe')" for ps' pe' rc
  proof -
    from that a have [simp]: "ps' = ps" "pe' = pe" by simp_all
    have "readStep T P tr ps pe rd rc' = Inr rc'" for rc'
      using a r dis by (intro readStep_disjoint [where rs = rs and re = re]) auto
    then have "readsLoop T P tr ps pe (rd # rest) = readsLoop T P tr ps pe rest"
      by (intro ext) simp
    then show ?thesis
      by (simp add: readsLoop_append)
  qed
  then show sim: "simulateWrite T P tr (wid, before @ rd # rest) = simulateWrite T P tr (wid, before @ rest)"
    by (rule simulateWrite_reads_cong)
  show "analyzeHotWrite T P tr (m1 @ (wid, before @ rd # rest) # m2)
            = analyzeHotWrite T P tr (m1 @ (wid, before @ rest) # m2)"
    by (rule analyzeHotWrite_cong [OF sim])
next
  fix i
  assume "requestSpan T P tr wid = Inr (ps, pe) \<and> requestSpan T P tr rd = Inr (rs, re)"
    and "0 \<le> i \<and> i < min pe re - max ps rs + 1"
  then show "0 \<le> max ps rs - ps + i" "max ps rs - ps + i \<le> (pe - ps + 1) - 1"
    by auto
next
  show "simulateWrite T P tr w \<noteq> Inl BadIndex"
    by (rule simulateWrite_no_BadIndex)
  show "analyzeHotWrite T P tr m \<noteq> Inl BadIndex"
    using writesLoop_no_BadIndex [of T P tr m "[]"]
    by (auto simp: analyzeHotWrite_def bindE_eq_Inl Let_def)
qed

theorem disjoint_read_is_noop_witness:
  "simulateWrite \<lparr>LBA_MAX = 2 ^ 63 - 1, LBA_SIGNED = True\<rparr> 4096
     [\<lparr>id_val = 0, isRead = False, sLBA = 0, nLB = 8192\<rparr>,
      \<lparr>id_val = 1, isRead = True, sLBA = 16384, nLB = 1\<rparr>] (0, [] @ 1 # [])
   = simulateWrite \<lparr>LBA_MAX = 2 ^ 63 - 1, LBA_SIGNED = True\<rparr> 4096
     [\<lparr>id_val = 0, isRead = False, sLBA = 0, nLB = 8192\<rparr>,
      \<lparr>id_val = 1, isRead = True, sLBA = 16384, nLB = 1\<rparr>] (0, [] @ [])
   \<and> analyzeHotWrite \<lparr>LBA_MAX = 2 ^ 63 - 1, LBA_SIGNED = True\<rparr> 4096
     [\<lparr>id_val = 0, isRead = False, sLBA = 0, nLB = 8192\<rparr>,
      \<lparr>id_val = 1, isRead = True, sLBA = 16384, nLB = 1\<rparr>] ([] @ (0, [] @ 1 # []) # [])
   = analyzeHotWrite \<lparr>LBA_MAX = 2 ^ 63 - 1, LBA_SIGNED = True\<rparr> 4096
     [\<lparr>id_val = 0, isRead = False, sLBA = 0, nLB = 8192\<rparr>,
      \<lparr>id_val = 1, isRead = True, sLBA = 16384, nLB = 1\<rparr>] ([] @ (0, [] @ []) # [])
   \<and> (0 :: int) \<le> max 0 1 - 0 + 0 \<and> max 0 1 - 0 + (0 :: int) \<le> (2 - 0 + 1) - 1"
proof -
  let ?T = "\<lparr>LBA_MAX = 2 ^ 63 - 1, LBA_SIGNED = True\<rparr>"
  let ?tr = "[\<lparr>id_val = 0, isRead = False, sLBA = 0, nLB = 8192\<rparr>,
      \<lparr>id_val = 1, isRead = True, sLBA = 16384, nLB = 1\<rparr>]"
  let ?tr' = "[\<lparr>id_val = 0, isRead = False, sLBA = 0, nLB = 8192\<rparr>,
      \<lparr>id_val = 1, isRead = True, sLBA = 4096, nLB = 1\<rparr>]"
  have w: "requestSpan ?T 4096 ?tr 0 = Inr (0, 2)" and r: "requestSpan ?T 4096 ?tr 1 = Inr (4, 4)"
    and w': "requestSpan ?T 4096 ?tr' 0 = Inr (0, 2)" and r': "requestSpan ?T 4096 ?tr' 1 = Inr (1, 1)"
    by (simp_all add: requestSpan_eq_Inr pageStartOf_eq_Inr pageEndOf_eq_Inr lbaSum_def INT64_MAX_def)
  have dis: "{4 :: int .. 4} \<inter> {0 .. 2} = {}" by simp
  have i: "(0 :: int) \<le> 0 \<and> (0 :: int) < min 2 1 - max 0 1 + 1" by simp
  from disjoint_read_is_noop [of ?T 4096 ?tr 0 0 2 1 4 4 "[]" "[]" "[]" "[]"] w r dis
    disjoint_read_is_noop [of ?T 4096 ?tr' 0 0 2 1 1 1, THEN conjunct2, THEN conjunct1] w' r' i
  show ?thesis by simp
qed

section \<open>Properties of the driver\<close>

text \<open>
  Claim C9. A run of \<^verbatim>\<open>analyze\<close> leaves the trace vector and both maps as they were,
  and every counter and every array it uses is created anew inside the call. A second
  run, started on what the first run left behind, therefore gives the same read
  breakdown, the same write breakdown and the same histogram.
\<close>

theorem analyze_idempotent:
  "snd (analyze T P pageNum st) = st
   \<and> fst (analyze T P pageNum (snd (analyze T P pageNum st))) = fst (analyze T P pageNum st)"
proof -
  have "snd (analyze T P pageNum st) = st"
    by (simp add: analyze_def Let_def analyzeDependTypes_mCentric)
  then show ?thesis by simp
qed

end
